theory Spec2Isabelle
  imports Main "HOL-Library.Sublist"
begin

section \<open>Python values\<close>

text \<open>
  The configuration values the utilities of \<^verbatim>\<open>stac_generator/core/utils.py\<close> and
  \<^verbatim>\<open>asset_scanner/core/utils.py\<close> work on are what a YAML document holds: \<^verbatim>\<open>None\<close>,
  booleans, integers, strings, lists and dictionaries with string keys. A dictionary is
  an association list in insertion order, as a Python \<^verbatim>\<open>dict\<close> iterates; a real
  dictionary never holds a key twice (\<open>wf_val\<close> below). Floating point numbers are left
  out.
\<close>

datatype pyval =
    PNone
  | PBool bool
  | PInt int
  | PStr string
  | PList "pyval list"
  | PDict "(string \<times> pyval) list"

type_synonym pydict = "(string \<times> pyval) list"

datatype pytype = TNone | TBool | TInt | TStr | TList | TDict

datatype error =
    AssertionError
  | TypeError
  | KeyError
  | IndexError
  | AttributeError
  | RecursionError
  | NoPluginsError string

text \<open>\<^verbatim>\<open>type(v)\<close>.\<close>

fun type_of :: "pyval \<Rightarrow> pytype" where
  "type_of PNone = TNone"
| "type_of (PBool b) = TBool"
| "type_of (PInt i) = TInt"
| "type_of (PStr s) = TStr"
| "type_of (PList xs) = TList"
| "type_of (PDict d) = TDict"

text \<open>\<^verbatim>\<open>isinstance(v, t)\<close>: \<^verbatim>\<open>bool\<close> is a subclass of \<^verbatim>\<open>int\<close>.\<close>

definition isinstance :: "pyval \<Rightarrow> pytype \<Rightarrow> bool" where
  "isinstance v t = (type_of v = t \<or> (type_of v = TBool \<and> t = TInt))"

text \<open>Truth value testing, as \<^verbatim>\<open>not x\<close> and \<^verbatim>\<open>if x\<close> do it.\<close>

fun truthy :: "pyval \<Rightarrow> bool" where
  "truthy PNone = False"
| "truthy (PBool b) = b"
| "truthy (PInt i) = (i \<noteq> 0)"
| "truthy (PStr s) = (s \<noteq> [])"
| "truthy (PList xs) = (xs \<noteq> [])"
| "truthy (PDict d) = (d \<noteq> [])"

text \<open>
  Python's \<^verbatim>\<open>==\<close>. \<^verbatim>\<open>True == 1\<close> and \<^verbatim>\<open>False == 0\<close> hold; lists are equal when they
  have the same length and equal elements in order; dictionaries are equal when they
  have the same number of keys and every key of the left one is a key of the right one
  with an equal value.
\<close>

fun py_eq :: "pyval \<Rightarrow> pyval \<Rightarrow> bool"
  and py_eq_list :: "pyval list \<Rightarrow> pyval list \<Rightarrow> bool"
  and py_eq_items :: "pydict \<Rightarrow> pydict \<Rightarrow> bool"
  and py_eq_lookup :: "pyval \<Rightarrow> string \<Rightarrow> pydict \<Rightarrow> bool"
where
  "py_eq PNone w = (w = PNone)"
| "py_eq (PBool a) w =
     (case w of PBool b \<Rightarrow> a = b | PInt j \<Rightarrow> (if a then 1 else 0) = j | _ \<Rightarrow> False)"
| "py_eq (PInt i) w =
     (case w of PBool b \<Rightarrow> i = (if b then 1 else 0) | PInt j \<Rightarrow> i = j | _ \<Rightarrow> False)"
| "py_eq (PStr s) w = (w = PStr s)"
| "py_eq (PList xs) w = (case w of PList ys \<Rightarrow> py_eq_list xs ys | _ \<Rightarrow> False)"
| "py_eq (PDict d) w =
     (case w of PDict e \<Rightarrow> length d = length e \<and> py_eq_items d e | _ \<Rightarrow> False)"
| "py_eq_list [] ys = (ys = [])"
| "py_eq_list (x # xs) ys =
     (case ys of [] \<Rightarrow> False | y # ys' \<Rightarrow> py_eq x y \<and> py_eq_list xs ys')"
| "py_eq_items [] e = True"
| "py_eq_items ((k, v) # d) e = (py_eq_lookup v k e \<and> py_eq_items d e)"
| "py_eq_lookup v k [] = False"
| "py_eq_lookup v k ((k', w) # e) = (if k = k' then py_eq v w else py_eq_lookup v k e)"

text \<open>\<^verbatim>\<open>x in xs\<close> for a list \<open>xs\<close>.\<close>

definition py_in :: "pyval \<Rightarrow> pyval list \<Rightarrow> bool" where
  "py_in x xs = list_ex (py_eq x) xs"

subsection \<open>Dictionary operations\<close>

text \<open>\<^verbatim>\<open>d.get(k)\<close> is \<open>map_of d k\<close>; \<^verbatim>\<open>d[k] = v\<close> keeps the place of a key the dictionary
  has and appends a new key.\<close>

fun dict_set :: "string \<Rightarrow> 'v \<Rightarrow> (string \<times> 'v) list \<Rightarrow> (string \<times> 'v) list" where
  "dict_set k v [] = [(k, v)]"
| "dict_set k v ((k', w) # d) = (if k = k' then (k, v) # d else (k', w) # dict_set k v d)"

text \<open>A value is well formed when no dictionary inside it holds a key twice.\<close>

fun wf_val :: "pyval \<Rightarrow> bool"
  and wf_vals :: "pyval list \<Rightarrow> bool"
  and wf_items :: "pydict \<Rightarrow> bool"
where
  "wf_val (PList xs) = wf_vals xs"
| "wf_val (PDict d) = (distinct (map fst d) \<and> wf_items d)"
| "wf_val v = True"
| "wf_vals [] = True"
| "wf_vals (x # xs) = (wf_val x \<and> wf_vals xs)"
| "wf_items [] = True"
| "wf_items ((k, v) # d) = (wf_val v \<and> wf_items d)"

definition wf_dict :: "pydict \<Rightarrow> bool" where
  "wf_dict d = wf_val (PDict d)"

section \<open>Deep merge\<close>

text \<open>
  The loop \<^verbatim>\<open>for list_value in v: if list_value not in rtn_dct[k]: rtn_dct[k].append(list_value)\<close>
  on the list \<open>acc\<close> stored under the key.
\<close>

fun extend_unique :: "pyval list \<Rightarrow> pyval list \<Rightarrow> pyval list" where
  "extend_unique acc [] = acc"
| "extend_unique acc (list_value # v) =
     extend_unique (if \<not> py_in list_value acc then acc @ [list_value] else acc) v"

text \<open>\<^verbatim>\<open>isinstance(c, list) and x in c\<close>.\<close>

fun list_contains :: "pyval \<Rightarrow> pyval \<Rightarrow> bool" where
  "list_contains (PList ys) x = py_in x ys"
| "list_contains c x = False"

text \<open>
  With \<^verbatim>\<open>add_keys=False\<close> the incoming layer is rebuilt from the keys it shares with the
  accumulator. Python builds it in the iteration order of a set, which is not
  specified; the model keeps the order of the layer. The steps of one layer touch
  different keys and the keys are all in the accumulator, so the order decides neither
  the result nor whether an error is raised (\<open>restrict_keys_order\<close>).
\<close>

definition restrict_keys :: "pydict \<Rightarrow> pydict \<Rightarrow> pydict" where
  "restrict_keys rtn_dct merge_dct = filter (\<lambda>(key, v). key \<in> fst ` set rtn_dct) merge_dct"

lemma size_restrict_keys: "size_list f (restrict_keys r m) \<le> size_list f m"
  unfolding restrict_keys_def by (induction m) auto

text \<open>
  \<^verbatim>\<open>dict_merge(*args, add_keys=True)\<close> of \<^verbatim>\<open>stac_generator/core/utils.py\<close>: \<open>dict_merge\<close> is
  the function, \<open>merge_dicts\<close> the loop over \<^verbatim>\<open>args[1:]\<close>, \<open>merge_items\<close> the loop over
  \<^verbatim>\<open>merge_dct.items()\<close> and \<open>merge_item\<close> its body. The accumulator \<open>rtn_dct\<close> starts as
  \<^verbatim>\<open>args[0].copy()\<close>. A raised exception is \<open>Inl\<close>.

  The functions work on values, every list and dictionary a value of its own. They
  give what the code returns when no list object can be reached along two paths from
  the layers (under two keys, or from two layers): the in-place \<^verbatim>\<open>append\<close> then changes
  the one place the value model changes. What the \<^verbatim>\<open>append\<close> does to a list object that is shared, with an input
  layer or between two keys, is not in these functions; it is in \<open>h_dict_merge\<close>, the
  same function on a store of objects (section \<open>Deep merge on objects\<close>).
\<close>

function dict_merge :: "bool \<Rightarrow> pydict list \<Rightarrow> error + pydict"
  and merge_dicts :: "bool \<Rightarrow> pydict \<Rightarrow> pydict list \<Rightarrow> error + pydict"
  and merge_items :: "bool \<Rightarrow> pydict \<Rightarrow> pydict \<Rightarrow> error + pydict"
  and merge_item :: "bool \<Rightarrow> pydict \<Rightarrow> string \<Rightarrow> pyval \<Rightarrow> error + pydict"
where
  "dict_merge add_keys args =
     (if \<not> length args \<ge> 2 then Inl AssertionError
      else merge_dicts add_keys (hd args) (tl args))"
| "merge_dicts add_keys rtn_dct [] = Inr rtn_dct"
| "merge_dicts add_keys rtn_dct (merge_dct # rest) =
     (case merge_items add_keys rtn_dct
             (if \<not> add_keys then restrict_keys rtn_dct merge_dct else merge_dct) of
        Inl e \<Rightarrow> Inl e
      | Inr rtn_dct' \<Rightarrow> merge_dicts add_keys rtn_dct' rest)"
| "merge_items add_keys rtn_dct [] = Inr rtn_dct"
| "merge_items add_keys rtn_dct ((k, v) # items) =
     (case merge_item add_keys rtn_dct k v of
        Inl e \<Rightarrow> Inl e
      | Inr rtn_dct' \<Rightarrow> merge_items add_keys rtn_dct' items)"
| "merge_item add_keys rtn_dct k v =
     (case map_of rtn_dct k of
        None \<Rightarrow> Inr (dict_set k v rtn_dct)
      | Some old \<Rightarrow>
          if \<not> truthy old then Inr (dict_set k v rtn_dct)
          else if \<not> isinstance v (type_of old) then
            (if list_contains v old then Inr (dict_set k v rtn_dct)
             else if list_contains old v then Inr (dict_set k old rtn_dct)
             else Inl TypeError)
          else
            (case (old, v) of
               (PDict d1, PDict d2) \<Rightarrow>
                 (case dict_merge add_keys [d1, d2] of
                    Inl e \<Rightarrow> Inl e
                  | Inr m \<Rightarrow> Inr (dict_set k (PDict m) rtn_dct))
             | (PList xs, PList ys) \<Rightarrow> Inr (dict_set k (PList (extend_unique xs ys)) rtn_dct)
             | (_, PList ys) \<Rightarrow> Inl AttributeError
             | _ \<Rightarrow> Inr (dict_set k v rtn_dct)))"
  by pat_completeness auto
termination
  apply (relation "measure (\<lambda>x. case x of
      Inl (Inl (ak, args)) \<Rightarrow> 4 * sum_list (map (\<lambda>d. size (PDict d)) (tl args)) + 2
    | Inl (Inr (ak, rtn, ls)) \<Rightarrow> 4 * sum_list (map (\<lambda>d. size (PDict d)) ls) + 1
    | Inr (Inl (ak, rtn, items)) \<Rightarrow> 4 * size (PDict items)
    | Inr (Inr (ak, rtn, k, v)) \<Rightarrow> 4 * size v + 3)")
        apply (auto simp: le_imp_less_Suc)
  subgoal for add_keys rtn_dct merge_dct rest
    using size_restrict_keys [of "size_prod (\<lambda>x. 0) size" rtn_dct merge_dct] by linarith
  done

text \<open>
  In \<open>merge_item\<close> the branch \<^verbatim>\<open>elif isinstance(v, list)\<close> is reached only when \<open>v\<close> is an
  instance of the type of \<^verbatim>\<open>rtn_dct[k]\<close>, so that \<^verbatim>\<open>rtn_dct[k]\<close> is a list too; the line
  \<open>Inl AttributeError\<close> stands for \<^verbatim>\<open>append\<close> on another value and is never taken
  (\<open>merge_item_no_attribute_error\<close>).
\<close>

text \<open>
  \<^verbatim>\<open>dict_merge\<close> of \<^verbatim>\<open>asset_scanner/core/utils.py\<close>: the same function but for the branch of
  mismatched types, which compares \<^verbatim>\<open>type(v) != type(rtn_dct[k])\<close> and always raises. It
  is on values like \<open>dict_merge\<close>, with the same limit: the in-place \<^verbatim>\<open>append\<close> on a
  shared list object is not in it.
\<close>

function asset_dict_merge :: "bool \<Rightarrow> pydict list \<Rightarrow> error + pydict"
  and asset_merge_dicts :: "bool \<Rightarrow> pydict \<Rightarrow> pydict list \<Rightarrow> error + pydict"
  and asset_merge_items :: "bool \<Rightarrow> pydict \<Rightarrow> pydict \<Rightarrow> error + pydict"
  and asset_merge_item :: "bool \<Rightarrow> pydict \<Rightarrow> string \<Rightarrow> pyval \<Rightarrow> error + pydict"
where
  "asset_dict_merge add_keys args =
     (if \<not> length args \<ge> 2 then Inl AssertionError
      else asset_merge_dicts add_keys (hd args) (tl args))"
| "asset_merge_dicts add_keys rtn_dct [] = Inr rtn_dct"
| "asset_merge_dicts add_keys rtn_dct (merge_dct # rest) =
     (case asset_merge_items add_keys rtn_dct
             (if \<not> add_keys then restrict_keys rtn_dct merge_dct else merge_dct) of
        Inl e \<Rightarrow> Inl e
      | Inr rtn_dct' \<Rightarrow> asset_merge_dicts add_keys rtn_dct' rest)"
| "asset_merge_items add_keys rtn_dct [] = Inr rtn_dct"
| "asset_merge_items add_keys rtn_dct ((k, v) # items) =
     (case asset_merge_item add_keys rtn_dct k v of
        Inl e \<Rightarrow> Inl e
      | Inr rtn_dct' \<Rightarrow> asset_merge_items add_keys rtn_dct' items)"
| "asset_merge_item add_keys rtn_dct k v =
     (case map_of rtn_dct k of
        None \<Rightarrow> Inr (dict_set k v rtn_dct)
      | Some old \<Rightarrow>
          if \<not> truthy old then Inr (dict_set k v rtn_dct)
          else if type_of v \<noteq> type_of old then Inl TypeError
          else
            (case (old, v) of
               (PDict d1, PDict d2) \<Rightarrow>
                 (case asset_dict_merge add_keys [d1, d2] of
                    Inl e \<Rightarrow> Inl e
                  | Inr m \<Rightarrow> Inr (dict_set k (PDict m) rtn_dct))
             | (PList xs, PList ys) \<Rightarrow> Inr (dict_set k (PList (extend_unique xs ys)) rtn_dct)
             | (_, PList ys) \<Rightarrow> Inl AttributeError
             | _ \<Rightarrow> Inr (dict_set k v rtn_dct)))"
  by pat_completeness auto
termination
  apply (relation "measure (\<lambda>x. case x of
      Inl (Inl (ak, args)) \<Rightarrow> 4 * sum_list (map (\<lambda>d. size (PDict d)) (tl args)) + 2
    | Inl (Inr (ak, rtn, ls)) \<Rightarrow> 4 * sum_list (map (\<lambda>d. size (PDict d)) ls) + 1
    | Inr (Inl (ak, rtn, items)) \<Rightarrow> 4 * size (PDict items)
    | Inr (Inr (ak, rtn, k, v)) \<Rightarrow> 4 * size v + 3)")
        apply (auto simp: le_imp_less_Suc)
  subgoal for add_keys rtn_dct merge_dct rest
    using size_restrict_keys [of "size_prod (\<lambda>x. 0) size" rtn_dct merge_dct] by linarith
  done

text \<open>
  The value that one step of \<open>merge_items\<close> stores under its key, as a function of what
  the accumulator holds there (\<open>None\<close> when the key is absent) and of the incoming
  value: the body of \<open>merge_item\<close> without the dictionary update
  (\<open>merge_item_value\<close>). \<open>merge_opt\<close> extends it to a key that the incoming layer does
  not have.
\<close>

definition merge_value :: "bool \<Rightarrow> pyval option \<Rightarrow> pyval \<Rightarrow> error + pyval" where
  "merge_value ak found v =
     (case found of
        None \<Rightarrow> Inr v
      | Some old \<Rightarrow>
          if \<not> truthy old then Inr v
          else if \<not> isinstance v (type_of old) then
            (if list_contains v old then Inr v
             else if list_contains old v then Inr old
             else Inl TypeError)
          else
            (case (old, v) of
               (PDict d1, PDict d2) \<Rightarrow>
                 (case dict_merge ak [d1, d2] of Inl e \<Rightarrow> Inl e | Inr m \<Rightarrow> Inr (PDict m))
             | (PList xs, PList ys) \<Rightarrow> Inr (PList (extend_unique xs ys))
             | (_, PList ys) \<Rightarrow> Inl AttributeError
             | _ \<Rightarrow> Inr v))"

definition merge_opt :: "bool \<Rightarrow> pyval option \<Rightarrow> pyval option \<Rightarrow> error + pyval option" where
  "merge_opt ak found incoming =
     (case incoming of
        None \<Rightarrow> Inr found
      | Some v \<Rightarrow> (case merge_value ak found v of Inl e \<Rightarrow> Inl e | Inr w \<Rightarrow> Inr (Some w)))"

text \<open>
  The general categories of the specification: mapping, sequence, and scalar for
  everything else.
\<close>

datatype category = Mapping | Sequence | Scalar

fun category_of :: "pyval \<Rightarrow> category" where
  "category_of (PDict d) = Mapping"
| "category_of (PList xs) = Sequence"
| "category_of v = Scalar"

text \<open>
  The elements of an incoming list at their first appearance: an element is kept when
  it is equal neither to an element seen in the accumulator nor to an earlier element of
  the incoming list.
\<close>

fun first_appearances :: "pyval list \<Rightarrow> pyval list \<Rightarrow> pyval list" where
  "first_appearances seen [] = []"
| "first_appearances seen (y # ys) =
     (if py_in y seen then [] else [y]) @ first_appearances (seen @ [y]) ys"

section \<open>Nested lookup\<close>

text \<open>
  \<^verbatim>\<open>dict_nest.get(key, default)\<close> on a value: only a dictionary has the method.
\<close>

fun py_get :: "pyval \<Rightarrow> string \<Rightarrow> pyval \<Rightarrow> error + pyval" where
  "py_get (PDict d) k dflt = Inr (case map_of d k of None \<Rightarrow> dflt | Some v \<Rightarrow> v)"
| "py_get v k dflt = Inl AttributeError"

text \<open>
  The loop of \<^verbatim>\<open>nested_get\<close>: every key that differs from \<open>last_key\<close> descends with
  \<^verbatim>\<open>.get(key, {})\<close>; the first key that equals \<open>last_key\<close> returns \<^verbatim>\<open>.get(key)\<close>.
  Falling off the loop returns \<^verbatim>\<open>None\<close>.
\<close>

fun nested_get_loop :: "string \<Rightarrow> string list \<Rightarrow> pyval \<Rightarrow> error + pyval" where
  "nested_get_loop last_key [] dict_nest = Inr PNone"
| "nested_get_loop last_key (key # keys) dict_nest =
     (if key \<noteq> last_key then
        (case py_get dict_nest key (PDict []) of
           Inl e \<Rightarrow> Inl e
         | Inr d \<Rightarrow> nested_get_loop last_key keys d)
      else py_get dict_nest key PNone)"

text \<open>\<^verbatim>\<open>key_list[-1]\<close> raises \<^verbatim>\<open>IndexError\<close> on an empty list.\<close>

definition nested_get :: "string list \<Rightarrow> pydict \<Rightarrow> error + pyval" where
  "nested_get key_list input_dict =
     (if key_list = [] then Inl IndexError
      else nested_get_loop (last key_list) key_list (PDict input_dict))"

text \<open>
  What the docstring of \<^verbatim>\<open>nested_get\<close> describes, by position: walk through every key
  but the last with \<^verbatim>\<open>.get(key, {})\<close>, then look the last key up with \<^verbatim>\<open>.get(key)\<close>.
  It is the reference the loop above is compared with.
\<close>

fun walk_keys :: "string list \<Rightarrow> pyval \<Rightarrow> error + pyval" where
  "walk_keys [] d = Inr d"
| "walk_keys (key # keys) d =
     (case py_get d key (PDict []) of Inl e \<Rightarrow> Inl e | Inr d' \<Rightarrow> walk_keys keys d')"

definition positional_get :: "string list \<Rightarrow> pydict \<Rightarrow> error + pyval" where
  "positional_get key_list input_dict =
     (if key_list = [] then Inl IndexError
      else (case walk_keys (butlast key_list) (PDict input_dict) of
              Inl e \<Rightarrow> Inl e
            | Inr d \<Rightarrow> py_get d (last key_list) PNone))"

section \<open>Dotted keys\<close>

text \<open>\<^verbatim>\<open>key.split(".")\<close> and \<^verbatim>\<open>".".join(parts)\<close>.\<close>

fun split_dot :: "string \<Rightarrow> string list" where
  "split_dot [] = [[]]"
| "split_dot (c # cs) =
     (if c = CHR ''.'' then [] # split_dot cs
      else (case split_dot cs of [] \<Rightarrow> [[c]] | s # ss \<Rightarrow> (c # s) # ss))"

fun join_dot :: "string list \<Rightarrow> string" where
  "join_dot [] = []"
| "join_dot [s] = s"
| "join_dot (s # t # ss) = s @ CHR ''.'' # join_dot (t # ss)"

lemma split_dot_nonempty: "split_dot key \<noteq> []"
  by (induction key) (auto split: list.splits)

lemma join_split_dot: "join_dot (split_dot key) = key"
proof (induction key)
  case Nil
  show ?case by simp
next
  case (Cons c cs)
  show ?case
  proof (cases "c = CHR ''.''")
    case True
    obtain s ss where "split_dot cs = s # ss"
      using split_dot_nonempty [of cs] by (cases "split_dot cs") auto
    with True Cons show ?thesis by simp
  next
    case False
    obtain s ss where e: "split_dot cs = s # ss"
      using split_dot_nonempty [of cs] by (cases "split_dot cs") auto
    with False Cons show ?thesis by (cases ss) auto
  qed
qed

lemma join_dot_snoc:
  "parts \<noteq> [] \<Longrightarrow> join_dot (parts @ [s]) = join_dot parts @ CHR ''.'' # s"
  by (induction parts rule: join_dot.induct) auto

lemma split_dot_single: "split_dot key = [s] \<Longrightarrow> key = s"
  using join_split_dot [of key] by simp

lemma join_butlast_shorter:
  assumes "key \<noteq> []"
  shows "length (join_dot (butlast (split_dot key))) < length key"
proof (cases "butlast (split_dot key) = []")
  case True
  with assms show ?thesis by simp
next
  case False
  have "split_dot key = butlast (split_dot key) @ [last (split_dot key)]"
    using split_dot_nonempty by simp
  then have "join_dot (split_dot key) =
      join_dot (butlast (split_dot key)) @ CHR ''.'' # last (split_dot key)"
    using join_dot_snoc [OF False] by metis
  then have "key = join_dot (butlast (split_dot key)) @ CHR ''.'' # last (split_dot key)"
    by (simp add: join_split_dot)
  then have "length key =
      length (join_dot (butlast (split_dot key)) @ CHR ''.'' # last (split_dot key))"
    by (rule arg_cong)
  then show ?thesis by simp
qed

text \<open>
  \<^verbatim>\<open>dot2dict\<close>: an empty key returns the value; otherwise the last segment wraps the
  value in a one-key dictionary and the function recurses on the joined prefix.
\<close>

function dot2dict :: "string \<Rightarrow> pyval \<Rightarrow> pyval" where
  "dot2dict key val =
     (if key = [] then val
      else (let parts = split_dot key;
                tail = last parts;
                key' = join_dot (butlast parts);
                val' = PDict [(tail, val)]
            in dot2dict key' val'))"
  by pat_completeness auto
termination
  by (relation "measure (\<lambda>(key, val). length key)") (auto simp: join_butlast_shorter)

declare dot2dict.simps [simp del]

text \<open>The single-branch nested dictionary over a list of segments.\<close>

fun nest :: "string list \<Rightarrow> pyval \<Rightarrow> pyval" where
  "nest [] v = v"
| "nest (s # ss) v = PDict [(s, nest ss v)]"

section \<open>Loading plugins\<close>

text \<open>
  \<^verbatim>\<open>for plugin_conf in conf[conf_section]\<close>: what iterating over a value yields. A list
  yields its elements, a dictionary its keys, a string its characters; the other values
  are not iterable.
\<close>

fun py_iter :: "pyval \<Rightarrow> error + pyval list" where
  "py_iter (PList xs) = Inr xs"
| "py_iter (PDict d) = Inr (map (\<lambda>(k, v). PStr k) d)"
| "py_iter (PStr s) = Inr (map (\<lambda>c. PStr [c]) s)"
| "py_iter v = Inl TypeError"

text \<open>
  The loop of \<^verbatim>\<open>load_plugins\<close>. \<open>get_processor\<close> stands for
  \<^verbatim>\<open>HandlerPicker(entry_point).get_processor\<close>, whose module is not part of the sources at
  hand: applied to the keyword arguments it returns the plugin (\<open>Inr\<close>) or raises an
  exception (\<open>Inl\<close>, with its detail). The state of the loop is the list
  \<open>loaded_plugins\<close> and the records written to the logger, each the plugin name of the
  message and the exception that \<^verbatim>\<open>exc_info=True\<close> attaches.

  The handler formats \<^verbatim>\<open>plugin_conf["name"]\<close>: a specification without that key raises
  \<^verbatim>\<open>KeyError\<close> from inside the handler, which leaves the function. An element that is not
  a mapping makes \<^verbatim>\<open>**plugin_conf\<close> raise, and then \<^verbatim>\<open>plugin_conf["name"]\<close> raises
  \<^verbatim>\<open>TypeError\<close> in the handler.
\<close>

fun load_loop ::
  "(pydict \<Rightarrow> 'e + 'p) \<Rightarrow> pyval list \<Rightarrow> 'p list \<Rightarrow> (pyval \<times> 'e) list
    \<Rightarrow> (pyval \<times> 'e) list \<times> (error + 'p list)" where
  "load_loop get_processor [] loaded_plugins logged = (logged, Inr loaded_plugins)"
| "load_loop get_processor (plugin_conf # rest) loaded_plugins logged =
     (case plugin_conf of
        PDict kwargs \<Rightarrow>
          (case get_processor kwargs of
             Inr loaded_plugin \<Rightarrow>
               load_loop get_processor rest (loaded_plugins @ [loaded_plugin]) logged
           | Inl exn \<Rightarrow>
               (case map_of kwargs ''name'' of
                  None \<Rightarrow> (logged, Inl KeyError)
                | Some name \<Rightarrow>
                    load_loop get_processor rest loaded_plugins (logged @ [(name, exn)])))
      | _ \<Rightarrow> (logged, Inl TypeError))"

definition load_plugins ::
  "(string \<Rightarrow> pydict \<Rightarrow> 'e + 'p) \<Rightarrow> pydict \<Rightarrow> string \<Rightarrow> string
    \<Rightarrow> (pyval \<times> 'e) list \<times> (error + 'p list)" where
  "load_plugins handler_picker conf entry_point conf_section =
     (case map_of conf conf_section of
        None \<Rightarrow> ([], Inl KeyError)
      | Some section \<Rightarrow>
          (case py_iter section of
             Inl e \<Rightarrow> ([], Inl e)
           | Inr plugin_confs \<Rightarrow>
               (case load_loop (handler_picker entry_point) plugin_confs [] [] of
                  (logged, Inl e) \<Rightarrow> (logged, Inl e)
                | (logged, Inr loaded_plugins) \<Rightarrow>
                    if loaded_plugins = [] then
                      (logged, Inl (NoPluginsError
                         (''No plugins were successfully loaded from '' @ conf_section)))
                    else (logged, Inr loaded_plugins))))"

text \<open>
  A plugin specification is a mapping with a \<^verbatim>\<open>name\<close>. The instances of the
  specifications that load, and the diagnostics of those that do not, in the order of
  the specifications.
\<close>

fun plugin_spec :: "pyval \<Rightarrow> bool" where
  "plugin_spec (PDict kwargs) = (map_of kwargs ''name'' \<noteq> None)"
| "plugin_spec v = False"

fun instances :: "(pydict \<Rightarrow> 'e + 'p) \<Rightarrow> pyval list \<Rightarrow> 'p list" where
  "instances get_processor [] = []"
| "instances get_processor (PDict kwargs # specs) =
     (case get_processor kwargs of Inr p \<Rightarrow> [p] | Inl exn \<Rightarrow> [])
     @ instances get_processor specs"
| "instances get_processor (v # specs) = instances get_processor specs"

fun diagnostics :: "(pydict \<Rightarrow> 'e + 'p) \<Rightarrow> pyval list \<Rightarrow> (pyval \<times> 'e) list" where
  "diagnostics get_processor [] = []"
| "diagnostics get_processor (PDict kwargs # specs) =
     (case (get_processor kwargs, map_of kwargs ''name'') of
        (Inl exn, Some name) \<Rightarrow> [(name, exn)]
      | _ \<Rightarrow> [])
     @ diagnostics get_processor specs"
| "diagnostics get_processor (v # specs) = diagnostics get_processor specs"

section \<open>Deep merge on objects\<close>

text \<open>
  Python passes lists and dictionaries by reference, and \<^verbatim>\<open>args[0].copy()\<close> is a shallow
  copy. To see what \<^verbatim>\<open>dict_merge\<close> does to the objects it is given, the function is
  modelled a second time on a store of objects: a value is \<^verbatim>\<open>None\<close>, a boolean, an
  integer, a string, or the address of a list object or of a dictionary object; the heap
  holds the contents of the list objects and of the dictionary objects and the next
  free dictionary address.
\<close>

datatype hval = HNone | HBool bool | HInt int | HStr string | HListRef nat | HDictRef nat

record heap =
  lists :: "nat \<Rightarrow> hval list"
  dicts :: "nat \<Rightarrow> (string \<times> hval) list"
  next_dict :: nat

text \<open>
  The value an object graph stands for, read off the heap down to a depth of \<open>n\<close>
  references (\<open>None\<close> beyond it).
\<close>

fun reify :: "nat \<Rightarrow> heap \<Rightarrow> hval \<Rightarrow> pyval option" where
  "reify n h HNone = Some PNone"
| "reify n h (HBool b) = Some (PBool b)"
| "reify n h (HInt i) = Some (PInt i)"
| "reify n h (HStr s) = Some (PStr s)"
| "reify 0 h (HListRef l) = None"
| "reify 0 h (HDictRef d) = None"
| "reify (Suc n) h (HListRef l) = map_option PList (those (map (reify n h) (lists h l)))"
| "reify (Suc n) h (HDictRef d) =
     map_option PDict (those (map (\<lambda>(k, v). map_option (Pair k) (reify n h v)) (dicts h d)))"

fun h_type :: "hval \<Rightarrow> pytype" where
  "h_type HNone = TNone"
| "h_type (HBool b) = TBool"
| "h_type (HInt i) = TInt"
| "h_type (HStr s) = TStr"
| "h_type (HListRef l) = TList"
| "h_type (HDictRef d) = TDict"

definition h_isinstance :: "hval \<Rightarrow> pytype \<Rightarrow> bool" where
  "h_isinstance v t = (h_type v = t \<or> (h_type v = TBool \<and> t = TInt))"

fun h_truthy :: "heap \<Rightarrow> hval \<Rightarrow> bool" where
  "h_truthy h HNone = False"
| "h_truthy h (HBool b) = b"
| "h_truthy h (HInt i) = (i \<noteq> 0)"
| "h_truthy h (HStr s) = (s \<noteq> [])"
| "h_truthy h (HListRef l) = (lists h l \<noteq> [])"
| "h_truthy h (HDictRef d) = (dicts h d \<noteq> [])"

text \<open>
  \<^verbatim>\<open>x in xs\<close> tests \<^verbatim>\<open>x is y or x == y\<close> for the elements in turn. \<^verbatim>\<open>==\<close> compares the
  values of the two object graphs; it raises \<^verbatim>\<open>RecursionError\<close> when they are deeper than
  the recursion limit \<open>n\<close>.
\<close>

definition h_eq :: "nat \<Rightarrow> heap \<Rightarrow> hval \<Rightarrow> hval \<Rightarrow> error + bool" where
  "h_eq n h x y =
     (if x = y then Inr True
      else (case (reify n h x, reify n h y) of
              (Some a, Some b) \<Rightarrow> Inr (py_eq a b)
            | _ \<Rightarrow> Inl RecursionError))"

fun h_in :: "nat \<Rightarrow> heap \<Rightarrow> hval \<Rightarrow> hval list \<Rightarrow> error + bool" where
  "h_in n h x [] = Inr False"
| "h_in n h x (y # ys) =
     (case h_eq n h x y of
        Inl e \<Rightarrow> Inl e
      | Inr found \<Rightarrow> if found then Inr True else h_in n h x ys)"

fun h_list_contains :: "nat \<Rightarrow> heap \<Rightarrow> hval \<Rightarrow> hval \<Rightarrow> error + bool" where
  "h_list_contains n h (HListRef l) x = h_in n h x (lists h l)"
| "h_list_contains n h c x = Inr False"

text \<open>
  \<^verbatim>\<open>d.copy()\<close> and the dictionary comprehension allocate a new dictionary object;
  \<^verbatim>\<open>rtn_dct[k] = v\<close> updates the dictionary object \<open>rtn_dct\<close>, and \<^verbatim>\<open>.append\<close> updates a
  list object, both in place.
\<close>

definition copy_dict :: "heap \<Rightarrow> (string \<times> hval) list \<Rightarrow> nat \<times> heap" where
  "copy_dict h d =
     (next_dict h, h\<lparr>dicts := (dicts h)(next_dict h := d), next_dict := Suc (next_dict h)\<rparr>)"

definition set_item :: "heap \<Rightarrow> nat \<Rightarrow> string \<Rightarrow> hval \<Rightarrow> heap" where
  "set_item h d k v = h\<lparr>dicts := (dicts h)(d := dict_set k v (dicts h d))\<rparr>"

definition list_append :: "heap \<Rightarrow> nat \<Rightarrow> hval \<Rightarrow> heap" where
  "list_append h l x = h\<lparr>lists := (lists h)(l := lists h l @ [x])\<rparr>"

fun h_extend_unique :: "nat \<Rightarrow> nat \<Rightarrow> hval list \<Rightarrow> heap \<Rightarrow> error + heap" where
  "h_extend_unique n l [] h = Inr h"
| "h_extend_unique n l (list_value # v) h =
     (case h_in n h list_value (lists h l) of
        Inl e \<Rightarrow> Inl e
      | Inr found \<Rightarrow>
          h_extend_unique n l v (if \<not> found then list_append h l list_value else h))"

text \<open>
  \<^verbatim>\<open>dict_merge\<close> on the heap, line by line as \<open>dict_merge\<close> above; the layers are the
  addresses of dictionary objects, the result is the address of the accumulator and the
  heap after the call. The first argument is the recursion limit of the interpreter: a
  call nested deeper raises \<^verbatim>\<open>RecursionError\<close>.
\<close>

function h_dict_merge :: "nat \<Rightarrow> bool \<Rightarrow> nat list \<Rightarrow> heap \<Rightarrow> error + nat \<times> heap"
  and h_merge_dicts :: "nat \<Rightarrow> bool \<Rightarrow> nat \<Rightarrow> nat list \<Rightarrow> heap \<Rightarrow> error + heap"
  and h_merge_items ::
    "nat \<Rightarrow> bool \<Rightarrow> nat \<Rightarrow> (string \<times> hval) list \<Rightarrow> heap \<Rightarrow> error + heap"
  and h_merge_item :: "nat \<Rightarrow> bool \<Rightarrow> nat \<Rightarrow> string \<Rightarrow> hval \<Rightarrow> heap \<Rightarrow> error + heap"
where
  "h_dict_merge 0 add_keys args h = Inl RecursionError"
| "h_dict_merge (Suc n) add_keys args h =
     (if \<not> length args \<ge> 2 then Inl AssertionError
      else (case copy_dict h (dicts h (hd args)) of
              (rtn_dct, h') \<Rightarrow>
                (case h_merge_dicts n add_keys rtn_dct (tl args) h' of
                   Inl e \<Rightarrow> Inl e
                 | Inr h'' \<Rightarrow> Inr (rtn_dct, h''))))"
| "h_merge_dicts n add_keys rtn_dct [] h = Inr h"
| "h_merge_dicts n add_keys rtn_dct (merge_dct # rest) h =
     (case (if \<not> add_keys
            then copy_dict h (filter (\<lambda>(key, v). key \<in> fst ` set (dicts h rtn_dct))
                                (dicts h merge_dct))
            else (merge_dct, h)) of
        (merge_dct', h') \<Rightarrow>
          (case h_merge_items n add_keys rtn_dct (dicts h' merge_dct') h' of
             Inl e \<Rightarrow> Inl e
           | Inr h'' \<Rightarrow> h_merge_dicts n add_keys rtn_dct rest h''))"
| "h_merge_items n add_keys rtn_dct [] h = Inr h"
| "h_merge_items n add_keys rtn_dct ((k, v) # items) h =
     (case h_merge_item n add_keys rtn_dct k v h of
        Inl e \<Rightarrow> Inl e
      | Inr h' \<Rightarrow> h_merge_items n add_keys rtn_dct items h')"
| "h_merge_item n add_keys rtn_dct k v h =
     (case map_of (dicts h rtn_dct) k of
        None \<Rightarrow> Inr (set_item h rtn_dct k v)
      | Some old \<Rightarrow>
          if \<not> h_truthy h old then Inr (set_item h rtn_dct k v)
          else if \<not> h_isinstance v (h_type old) then
            (case h_list_contains n h v old of
               Inl e \<Rightarrow> Inl e
             | Inr adopt \<Rightarrow>
                 if adopt then Inr (set_item h rtn_dct k v)
                 else (case h_list_contains n h old v of
                         Inl e \<Rightarrow> Inl e
                       | Inr keep \<Rightarrow>
                           if keep then Inr (set_item h rtn_dct k old) else Inl TypeError))
          else
            (case (old, v) of
               (HDictRef d1, HDictRef d2) \<Rightarrow>
                 (case h_dict_merge n add_keys [d1, d2] h of
                    Inl e \<Rightarrow> Inl e
                  | Inr (m, h') \<Rightarrow> Inr (set_item h' rtn_dct k (HDictRef m)))
             | (HListRef l1, HListRef l2) \<Rightarrow> h_extend_unique n l1 (lists h l2) h
             | (_, HListRef l2) \<Rightarrow> Inl AttributeError
             | _ \<Rightarrow> Inr (set_item h rtn_dct k v)))"
  by pat_completeness auto
termination
  by (relation "inv_image (less_than <*lex*> less_than <*lex*> less_than) (\<lambda>x. case x of
      Inl (Inl (n, ak, args, h)) \<Rightarrow> (n, 0, 0)
    | Inl (Inr (n, ak, rtn, ls, h)) \<Rightarrow> (n, 3, length ls)
    | Inr (Inl (n, ak, rtn, items, h)) \<Rightarrow> (n, 2, length items)
    | Inr (Inr (n, ak, rtn, k, v, h)) \<Rightarrow> (n, 1::nat, 0::nat))") auto

text \<open>
  Two layers \<^verbatim>\<open>{"x": [1, 2]}\<close> (dictionary 0, list 0) and \<^verbatim>\<open>{"x": [2, 3]}\<close> (dictionary 1,
  list 1); and three layers \<^verbatim>\<open>{}\<close>, \<^verbatim>\<open>{"x": [1]}\<close>, \<^verbatim>\<open>{"x": [2]}\<close>.
\<close>

definition example_heap :: heap where
  "example_heap =
     \<lparr>lists = (\<lambda>l. [])(0 := [HInt 1, HInt 2], 1 := [HInt 2, HInt 3]),
      dicts = (\<lambda>d. [])(0 := [(''x'', HListRef 0)], 1 := [(''x'', HListRef 1)]),
      next_dict = 2\<rparr>"


text \<open>
  One list object \<^verbatim>\<open>L = [1]\<close> (list 0) under both keys of \<^verbatim>\<open>a = {"x": L, "y": L}\<close>
  (dictionary 0), with \<^verbatim>\<open>b = {"x": [2], "y": [3]}\<close> (dictionary 1) and \<^verbatim>\<open>c = {"x": [4]}\<close>
  (dictionary 2).
\<close>

definition shared_list_heap :: heap where
  "shared_list_heap =
     \<lparr>lists = (\<lambda>l. [])(0 := [HInt 1], 1 := [HInt 2], 2 := [HInt 3], 3 := [HInt 4]),
      dicts = (\<lambda>d. [])(0 := [(''x'', HListRef 0), (''y'', HListRef 0)],
                          1 := [(''x'', HListRef 1), (''y'', HListRef 2)],
                          2 := [(''x'', HListRef 3)]),
      next_dict = 3\<rparr>"

definition example_heap3 :: heap where
  "example_heap3 =
     \<lparr>lists = (\<lambda>l. [])(0 := [HInt 1], 1 := [HInt 2]),
      dicts = (\<lambda>d. [])(0 := [], 1 := [(''x'', HListRef 0)], 2 := [(''x'', HListRef 1)]),
      next_dict = 3\<rparr>"

section \<open>Properties of equality and membership\<close>

subsection \<open>Equality\<close>

lemma py_eq_list_all2: "py_eq_list xs ys = list_all2 py_eq xs ys"
  by (induction xs arbitrary: ys) (auto split: list.splits simp: list_all2_Cons1)

lemma py_eq_lookup_map_of:
  "py_eq_lookup v k e = (case map_of e k of None \<Rightarrow> False | Some w \<Rightarrow> py_eq v w)"
  by (induction e) auto

lemma py_eq_items_all:
  "py_eq_items d e = (\<forall>(k, v)\<in>set d. py_eq_lookup v k e)"
  by (induction d) auto

lemma wf_vals_all: "wf_vals xs = (\<forall>x\<in>set xs. wf_val x)"
  by (induction xs) auto

lemma wf_items_all: "wf_items d = (\<forall>(k, v)\<in>set d. wf_val v)"
  by (induction d) auto

lemma py_eq_refl: "wf_val v \<Longrightarrow> py_eq v v"
proof (induction v)
  case (PList xs)
  then have "list_all2 py_eq xs xs"
    by (auto simp: list_all2_same wf_vals_all)
  then show ?case by (simp add: py_eq_list_all2)
next
  case (PDict d)
  have "py_eq_lookup v k d" if "(k, v) \<in> set d" for k v
  proof -
    have "map_of d k = Some v" using that PDict.prems by simp
    moreover have "py_eq v v"
      using that PDict.prems PDict.IH [of "(k, v)" v] by (auto simp: wf_items_all)
    ultimately show ?thesis by (simp add: py_eq_lookup_map_of)
  qed
  then show ?case by (auto simp: py_eq_items_all)
qed auto

lemma py_eq_trans: "py_eq a b \<Longrightarrow> py_eq b c \<Longrightarrow> py_eq a c"
proof (induction a arbitrary: b c)
  case PNone
  then show ?case by auto
next
  case (PBool x)
  then show ?case by (cases b; cases c) (auto split: if_splits)
next
  case (PInt x)
  then show ?case by (cases b; cases c) (auto split: if_splits)
next
  case (PStr x)
  then show ?case by auto
next
  case (PList xs)
  from PList.prems obtain ys zs where b: "b = PList ys" and c: "c = PList zs"
    by (cases b; cases c) auto
  with PList.prems have xy: "list_all2 py_eq xs ys" and yz: "list_all2 py_eq ys zs"
    by (auto simp: py_eq_list_all2)
  have "list_all2 py_eq xs zs"
    unfolding list_all2_conv_all_nth
  proof (intro conjI allI impI)
    show "length xs = length zs"
      using list_all2_lengthD [OF xy] list_all2_lengthD [OF yz] by simp
    fix i assume i: "i < length xs"
    then have "py_eq (xs ! i) (ys ! i)" using xy by (auto dest: list_all2_nthD)
    moreover have "py_eq (ys ! i) (zs ! i)"
      using yz xy i by (auto dest: list_all2_nthD2 list_all2_lengthD simp: list_all2_conv_all_nth)
    ultimately show "py_eq (xs ! i) (zs ! i)"
      using PList.IH [of "xs ! i"] i by auto
  qed
  with b c show ?case by (simp add: py_eq_list_all2)
next
  case (PDict d)
  from PDict.prems obtain e f where b: "b = PDict e" and c: "c = PDict f"
    by (cases b; cases c) auto
  with PDict.prems have len: "length d = length e" "length e = length f"
    and de: "\<forall>(k, v)\<in>set d. py_eq_lookup v k e"
    and ef: "\<forall>(k, v)\<in>set e. py_eq_lookup v k f"
    by (auto simp: py_eq_items_all)
  have "py_eq_lookup v k f" if kv: "(k, v) \<in> set d" for k v
  proof -
    from de kv obtain w where w: "map_of e k = Some w" "py_eq v w"
      by (auto simp: py_eq_lookup_map_of split: option.splits)
    then have "(k, w) \<in> set e" by (auto dest: map_of_SomeD)
    with ef obtain u where u: "map_of f k = Some u" "py_eq w u"
      by (auto simp: py_eq_lookup_map_of split: option.splits)
    have "py_eq v u"
      using PDict.IH [of "(k, v)" v w u] kv w u by auto
    with u show ?thesis by (simp add: py_eq_lookup_map_of)
  qed
  with len b c show ?case by (auto simp: py_eq_items_all)
qed

subsection \<open>Membership and the union loop\<close>

lemma py_in_Nil [simp]: "py_in x [] = False"
  and py_in_Cons [simp]: "py_in x (y # ys) = (py_eq x y \<or> py_in x ys)"
  and py_in_append [simp]: "py_in x (xs @ ys) = (py_in x xs \<or> py_in x ys)"
  by (auto simp: py_in_def list_ex_iff)

lemma py_in_set: "py_in x xs = (\<exists>y\<in>set xs. py_eq x y)"
  by (simp add: py_in_def list_ex_iff)

lemma py_in_self: "wf_val x \<Longrightarrow> x \<in> set xs \<Longrightarrow> py_in x xs"
  using py_eq_refl [of x] by (auto simp: py_in_set)

section \<open>Properties of the deep merge\<close>

declare merge_item.simps [simp del] dict_merge.simps [simp del]
declare asset_merge_item.simps [simp del] asset_dict_merge.simps [simp del]

subsection \<open>Dictionary updates\<close>

lemma map_of_dict_set: "map_of (dict_set k v d) = (map_of d)(k \<mapsto> v)"
  by (induction d) (auto simp: fun_eq_iff)

lemma keys_dict_set:
  "map fst (dict_set k v d) = (if k \<in> fst ` set d then map fst d else map fst d @ [k])"
  by (induction d) force+

lemma dict_set_same: "map_of d k = Some v \<Longrightarrow> dict_set k v d = d"
  by (induction d) (auto split: if_splits)

lemma distinct_dict_set: "distinct (map fst d) \<Longrightarrow> distinct (map fst (dict_set k v d))"
  by (simp add: keys_dict_set)

subsection \<open>Errors\<close>

lemma merge_errors:
  "(dict_merge ak args = Inl e \<longrightarrow> e = TypeError \<or> (e = AssertionError \<and> length args < 2))"
  "(merge_dicts ak rtn ls = Inl e \<longrightarrow> e = TypeError)"
  "(merge_items ak rtn items = Inl e \<longrightarrow> e = TypeError)"
  "(merge_item ak rtn k v = Inl e \<longrightarrow> e = TypeError)"
proof (induction ak args and ak rtn ls and ak rtn items and ak rtn k v
    rule: dict_merge_merge_dicts_merge_items_merge_item.induct)
  case (1 add_keys args)
  then show ?case by (auto simp: dict_merge.simps)
next
  case (2 add_keys rtn_dct)
  then show ?case by simp
next
  case (3 add_keys rtn_dct merge_dct rest)
  then show ?case by (auto split: sum.splits if_splits)
next
  case (4 add_keys rtn_dct)
  then show ?case by simp
next
  case (5 add_keys rtn_dct k v items)
  then show ?case by (auto split: sum.splits)
next
  case (6 add_keys rtn_dct k v)
  show ?case
  proof
    assume a: "merge_item add_keys rtn_dct k v = Inl e"
    then obtain old where old: "map_of rtn_dct k = Some old" "truthy old"
      by (auto simp: merge_item.simps split: option.splits if_splits)
    show "e = TypeError"
    proof (cases "isinstance v (type_of old)")
      case False
      with a old show ?thesis
        by (auto simp: merge_item.simps split: if_splits)
    next
      case True
      with a old 6 show ?thesis
        by (cases old; cases v)
           (auto simp: merge_item.simps isinstance_def split: sum.splits)
    qed
  qed
qed

lemma merge_item_no_attribute_error: "merge_item ak rtn k v \<noteq> Inl AttributeError"
  using merge_errors(4) [of ak rtn k v AttributeError] by auto

lemma dict_merge_two_error: "dict_merge ak [a, b] = Inl e \<Longrightarrow> e = TypeError"
  using merge_errors(1) [of ak "[a, b]" e] by auto

subsection \<open>An error aborts the merge\<close>

lemma merge_items_append:
  "merge_items ak rtn (pre @ post) =
     (case merge_items ak rtn pre of Inl e \<Rightarrow> Inl e | Inr r \<Rightarrow> merge_items ak r post)"
  by (induction pre arbitrary: rtn) (auto split: sum.splits)

lemma merge_dicts_append:
  "merge_dicts ak rtn (before @ rest) =
     (case merge_dicts ak rtn before of Inl e \<Rightarrow> Inl e | Inr r \<Rightarrow> merge_dicts ak r rest)"
  by (induction before arbitrary: rtn) (auto split: sum.splits)

lemma dict_merge_aborts:
  assumes "merge_dicts ak a before = Inr r0"
    and "(if \<not> ak then restrict_keys r0 layer else layer) = pre @ (k, v) # post"
    and "merge_items ak r0 pre = Inr rtn"
    and "merge_item ak rtn k v = Inl e"
  shows "dict_merge ak (a # before @ layer # rest) = Inl e"
proof -
  have "merge_items ak r0 (pre @ (k, v) # post) = Inl e"
    using assms(3,4) by (simp add: merge_items_append)
  then have "merge_dicts ak r0 (layer # rest) = Inl e"
    using assms(2) by (simp del: merge_items.simps)
  then have "merge_dicts ak a (before @ layer # rest) = Inl e"
    using assms(1) by (simp add: merge_dicts_append del: merge_dicts.simps)
  then show ?thesis by (simp add: dict_merge.simps)
qed

subsection \<open>Type conflicts\<close>

lemma merge_item_raises_iff:
  assumes "map_of rtn_dct k = Some old" and "truthy old"
  shows "isl (merge_item ak rtn_dct k v) \<longleftrightarrow>
     (\<not> isinstance v (type_of old) \<and> \<not> list_contains v old \<and> \<not> list_contains old v)
     \<or> (\<exists>d1 d2. old = PDict d1 \<and> v = PDict d2 \<and> isl (dict_merge ak [d1, d2]))"
proof (cases "isinstance v (type_of old)")
  case False
  then have "\<not> (\<exists>d1 d2. old = PDict d1 \<and> v = PDict d2)"
    by (auto simp: isinstance_def)
  with False assms show ?thesis
    by (auto simp: merge_item.simps)
next
  case True
  with assms show ?thesis
    by (cases old; cases v) (auto simp: merge_item.simps isinstance_def split: sum.splits)
qed


text \<open>
  C1: at a key whose value in the accumulator is truthy, the step raises exactly when
  the two values are not of the same general category (mapping, sequence, scalar) and
  neither containment reconciliation applies. The code compares types, not categories:
  a string in the accumulator and an incoming integer are both scalars, no
  reconciliation applies, and the step raises \<^verbatim>\<open>TypeError\<close>.
\<close>

theorem merge_item_same_category_conflict:
  "\<not> (isl (merge_item True [(''x'', PStr ''a'')] ''x'' (PInt 1)) \<longleftrightarrow>
        category_of (PStr ''a'') \<noteq> category_of (PInt 1)
        \<and> \<not> list_contains (PInt 1) (PStr ''a'') \<and> \<not> list_contains (PStr ''a'') (PInt 1))"
  by (simp add: merge_item.simps isinstance_def)

text \<open>
  C1, amended: at a key whose value \<open>old\<close> in the accumulator is truthy, the step raises
  exactly when the incoming value \<open>v\<close> is not an instance of the type of \<open>old\<close> and
  neither containment reconciliation applies, or when both are mappings and their
  nested merge raises; the error is a \<^verbatim>\<open>TypeError\<close>. When \<open>v\<close> is a list that contains
  \<open>old\<close> (not itself a list), \<open>v\<close> is adopted; when \<open>old\<close> is a list that contains \<open>v\<close>
  (not itself a list), the accumulator is kept as it is. An error at the step is the
  result of the whole merge: nothing of the accumulator is returned.
\<close>

theorem merge_item_type_conflict:
  assumes "map_of rtn_dct k = Some old" and "truthy old"
  shows "(isl (merge_item ak rtn_dct k v) \<longleftrightarrow>
            (\<not> isinstance v (type_of old) \<and> \<not> list_contains v old \<and> \<not> list_contains old v)
            \<or> (\<exists>d1 d2. old = PDict d1 \<and> v = PDict d2 \<and> isl (dict_merge ak [d1, d2])))
       \<and> (\<forall>e. merge_item ak rtn_dct k v = Inl e \<longrightarrow> e = TypeError)
       \<and> (type_of old \<noteq> TList \<and> list_contains v old \<longrightarrow>
            merge_item ak rtn_dct k v = Inr (dict_set k v rtn_dct))
       \<and> (type_of v \<noteq> TList \<and> list_contains old v \<longrightarrow>
            merge_item ak rtn_dct k v = Inr rtn_dct)
       \<and> (\<forall>e a before r0 layer pre post rest.
            merge_dicts ak a before = Inr r0
            \<and> (if \<not> ak then restrict_keys r0 layer else layer) = pre @ (k, v) # post
            \<and> merge_items ak r0 pre = Inr rtn_dct
            \<and> merge_item ak rtn_dct k v = Inl e
            \<longrightarrow> dict_merge ak (a # before @ layer # rest) = Inl e)"
proof (intro conjI allI impI)
  show "isl (merge_item ak rtn_dct k v) \<longleftrightarrow>
      (\<not> isinstance v (type_of old) \<and> \<not> list_contains v old \<and> \<not> list_contains old v)
      \<or> (\<exists>d1 d2. old = PDict d1 \<and> v = PDict d2 \<and> isl (dict_merge ak [d1, d2]))"
    by (rule merge_item_raises_iff [OF assms])
next
  fix e assume "merge_item ak rtn_dct k v = Inl e"
  then show "e = TypeError" using merge_errors(4) by blast
next
  assume a: "type_of old \<noteq> TList \<and> list_contains v old"
  then obtain ys where "v = PList ys" by (cases v) auto
  with a have "\<not> isinstance v (type_of old)" by (auto simp: isinstance_def)
  with a assms show "merge_item ak rtn_dct k v = Inr (dict_set k v rtn_dct)"
    by (simp add: merge_item.simps)
next
  assume a: "type_of v \<noteq> TList \<and> list_contains old v"
  then obtain xs where xs: "old = PList xs" by (cases old) auto
  with a have "\<not> isinstance v (type_of old)" by (auto simp: isinstance_def)
  moreover have "\<not> list_contains v old" using a by (cases v) auto
  ultimately show "merge_item ak rtn_dct k v = Inr rtn_dct"
    using a assms by (simp add: merge_item.simps dict_set_same)
next
  fix e a before r0 layer pre post rest
  assume "merge_dicts ak a before = Inr r0
      \<and> (if \<not> ak then restrict_keys r0 layer else layer) = pre @ (k, v) # post
      \<and> merge_items ak r0 pre = Inr rtn_dct
      \<and> merge_item ak rtn_dct k v = Inl e"
  then show "dict_merge ak (a # before @ layer # rest) = Inl e"
    using dict_merge_aborts by blast
qed

text \<open>
  The example of the specification: merging \<^verbatim>\<open>{"x": "a"}\<close> with \<^verbatim>\<open>{"x": [1,2]}\<close> raises
  a type-conflict error, and the merge returns it.
\<close>

theorem merge_item_type_conflict_witness:
  "map_of [(''x'', PStr ''a'')] ''x'' = Some (PStr ''a'') \<and> truthy (PStr ''a'')
   \<and> isl (merge_item True [(''x'', PStr ''a'')] ''x'' (PList [PInt 1, PInt 2]))
   \<and> dict_merge True [[(''x'', PStr ''a'')], [(''x'', PList [PInt 1, PInt 2])]] = Inl TypeError"
proof -
  let ?rtn = "[(''x'', PStr ''a'')]" and ?v = "PList [PInt 1, PInt 2]"
  have m: "map_of ?rtn ''x'' = Some (PStr ''a'')" and t: "truthy (PStr ''a'')"
    by simp_all
  note th = merge_item_type_conflict [OF m t, of True ?v]
  have r: "isl (merge_item True ?rtn ''x'' ?v)"
    using th by (simp add: isinstance_def)
  then obtain e where e: "merge_item True ?rtn ''x'' ?v = Inl e"
    by (cases "merge_item True ?rtn ''x'' ?v") auto
  with th have "e = TypeError" by blast
  moreover have "merge_dicts True ?rtn [] = Inr ?rtn
      \<and> (if \<not> True then restrict_keys ?rtn [(''x'', ?v)] else [(''x'', ?v)])
          = [] @ (''x'', ?v) # []
      \<and> merge_items True ?rtn [] = Inr ?rtn
      \<and> merge_item True ?rtn ''x'' ?v = Inl e
      \<longrightarrow> dict_merge True (?rtn # [] @ [(''x'', ?v)] # []) = Inl e"
    using th by blast
  ultimately show ?thesis using m t r e by simp
qed

subsection \<open>Union of lists\<close>

lemma extend_unique_first_appearances:
  "(\<And>z. py_in z acc = py_in z seen) \<Longrightarrow>
   extend_unique acc ys = acc @ first_appearances seen ys"
proof (induction ys arbitrary: acc seen)
  case Nil
  show ?case by simp
next
  case (Cons y ys)
  show ?case
  proof (cases "py_in y acc")
    case True
    have "py_in z acc = py_in z (seen @ [y])" for z
    proof
      assume "py_in z acc" then show "py_in z (seen @ [y])" using Cons.prems by simp
    next
      assume "py_in z (seen @ [y])"
      then consider "py_in z seen" | "py_eq z y" by auto
      then show "py_in z acc"
      proof cases
        case 1 then show ?thesis using Cons.prems by simp
      next
        case 2
        from True obtain a where "a \<in> set acc" "py_eq y a" by (auto simp: py_in_set)
        with 2 show ?thesis using py_eq_trans by (auto simp: py_in_set)
      qed
    qed
    from Cons.IH [OF this] True Cons.prems show ?thesis by simp
  next
    case False
    have "py_in z (acc @ [y]) = py_in z (seen @ [y])" for z
      using Cons.prems by simp
    from Cons.IH [OF this] False Cons.prems show ?thesis by simp
  qed
qed

lemma subseq_first_appearances: "subseq (first_appearances seen ys) ys"
  by (induction ys arbitrary: seen) auto

text \<open>
  C7: at a key whose value in the accumulator is a truthy list \<open>xs\<close>, an incoming list
  \<open>ys\<close> is merged into \<open>xs\<close> in its original order followed by the elements of \<open>ys\<close> that
  are equal neither to an element of \<open>xs\<close> nor to an earlier element of \<open>ys\<close>, in the
  order of \<open>ys\<close>; nothing is sorted.
\<close>

theorem merge_item_list_union:
  assumes "map_of rtn_dct k = Some (PList xs)" and "xs \<noteq> []"
  shows "merge_item ak rtn_dct k (PList ys) =
           Inr (dict_set k (PList (xs @ first_appearances xs ys)) rtn_dct)
         \<and> subseq (first_appearances xs ys) ys"
proof -
  have "extend_unique xs ys = xs @ first_appearances xs ys"
    by (rule extend_unique_first_appearances) simp
  with assms show ?thesis
    by (simp add: merge_item.simps isinstance_def subseq_first_appearances)
qed

text \<open>
  The example of the specification: merging \<^verbatim>\<open>{"x": [1,2]}\<close> with \<^verbatim>\<open>{"x": [2,3]}\<close>
  yields \<^verbatim>\<open>{"x": [1,2,3]}\<close>.
\<close>

theorem merge_item_list_union_witness:
  "map_of [(''x'', PList [PInt 1, PInt 2])] ''x'' = Some (PList [PInt 1, PInt 2])
   \<and> [PInt 1, PInt 2] \<noteq> []
   \<and> dict_merge True [[(''x'', PList [PInt 1, PInt 2])], [(''x'', PList [PInt 2, PInt 3])]]
       = Inr [(''x'', PList [PInt 1, PInt 2, PInt 3])]"
proof -
  let ?rtn = "[(''x'', PList [PInt 1, PInt 2])]"
  have m: "map_of ?rtn ''x'' = Some (PList [PInt 1, PInt 2])" and n: "[PInt 1, PInt 2] \<noteq> []"
    by simp_all
  from merge_item_list_union [OF m n, of True "[PInt 2, PInt 3]"]
  have "merge_item True ?rtn ''x'' (PList [PInt 2, PInt 3])
      = Inr [(''x'', PList [PInt 1, PInt 2, PInt 3])]"
    by simp
  then show ?thesis by (simp add: dict_merge.simps)
qed

subsection \<open>Merging a layer with itself\<close>

lemma size_item_less: "(k, v) \<in> set d \<Longrightarrow> size v < size (PDict d)"
  by (induction d) auto

lemma extend_unique_absorb: "\<forall>y\<in>set ys. py_in y acc \<Longrightarrow> extend_unique acc ys = acc"
  by (induction ys) auto

lemma restrict_keys_self: "restrict_keys d d = d"
  unfolding restrict_keys_def by (rule filter_True) force

lemma merge_items_fixed:
  "(\<And>k v. (k, v) \<in> set items \<Longrightarrow> merge_item ak rtn k v = Inr rtn) \<Longrightarrow>
   merge_items ak rtn items = Inr rtn"
  by (induction items) auto

lemma dict_merge_self: "wf_val (PDict x) \<Longrightarrow> dict_merge ak [x, x] = Inr x"
proof (induction "size (PDict x)" arbitrary: x rule: less_induct)
  case less
  have dist: "distinct (map fst x)" and wfi: "\<forall>(k, v)\<in>set x. wf_val v"
    using less.prems by (auto simp: wf_items_all)
  have step: "merge_item ak x k v = Inr x" if kv: "(k, v) \<in> set x" for k v
  proof -
    have m: "map_of x k = Some v" using kv dist by simp
    have wv: "wf_val v" using kv wfi by auto
    show ?thesis
    proof (cases "truthy v")
      case False
      with m show ?thesis by (simp add: merge_item.simps dict_set_same)
    next
      case True
      have inst: "isinstance v (type_of v)" by (simp add: isinstance_def)
      show ?thesis
      proof (cases v)
        case (PDict d)
        have "dict_merge ak [d, d] = Inr d"
          using less.hyps [of d] size_item_less [OF kv] wv PDict by simp
        with m True inst PDict show ?thesis
          by (simp add: merge_item.simps dict_set_same)
      next
        case (PList xs)
        have "extend_unique xs xs = xs"
          using wv PList by (intro extend_unique_absorb) (auto simp: wf_vals_all py_in_self)
        with m True inst PList show ?thesis
          by (simp add: merge_item.simps dict_set_same)
      qed (use m True inst in \<open>simp_all add: merge_item.simps dict_set_same\<close>)
    qed
  qed
  have "merge_items ak x x = Inr x"
    by (rule merge_items_fixed) (rule step)
  then show ?case
    by (cases ak) (simp_all add: dict_merge.simps restrict_keys_self)
qed

text \<open>
  C5: merging a mapping with itself gives a mapping equal to it, with either setting of
  \<^verbatim>\<open>add_keys\<close>: the call returns, and the result is \<open>x\<close>, key order included.
\<close>

theorem dict_merge_idempotent:
  assumes "wf_dict x"
  shows "\<exists>r. dict_merge add_keys [x, x] = Inr r \<and> py_eq (PDict r) (PDict x) \<and> r = x"
  using assms dict_merge_self [of x add_keys] py_eq_refl [of "PDict x"]
  by (simp add: wf_dict_def)

theorem dict_merge_idempotent_witness:
  "wf_dict [(''x'', PList [PInt 1, PInt 2]), (''y'', PDict [(''z'', PInt 0)])]
   \<and> dict_merge False [[(''x'', PList [PInt 1, PInt 2]), (''y'', PDict [(''z'', PInt 0)])],
                       [(''x'', PList [PInt 1, PInt 2]), (''y'', PDict [(''z'', PInt 0)])]]
     = Inr [(''x'', PList [PInt 1, PInt 2]), (''y'', PDict [(''z'', PInt 0)])]"
proof -
  let ?x = "[(''x'', PList [PInt 1, PInt 2]), (''y'', PDict [(''z'', PInt 0)])]"
  have w: "wf_dict ?x" by (simp add: wf_dict_def)
  from dict_merge_idempotent [OF w, of False] w show ?thesis by auto
qed

subsection \<open>The two implementations\<close>

lemma asset_refines:
  "(asset_dict_merge ak args = Inr r \<longrightarrow> dict_merge ak args = Inr r)"
  "(asset_merge_dicts ak rtn ls = Inr r \<longrightarrow> merge_dicts ak rtn ls = Inr r)"
  "(asset_merge_items ak rtn items = Inr r \<longrightarrow> merge_items ak rtn items = Inr r)"
  "(asset_merge_item ak rtn k v = Inr r \<longrightarrow> merge_item ak rtn k v = Inr r)"
proof (induction ak args and ak rtn ls and ak rtn items and ak rtn k v arbitrary: r and r and r and r
    rule: asset_dict_merge_asset_merge_dicts_asset_merge_items_asset_merge_item.induct)
  case (1 add_keys args)
  then show ?case by (auto simp: dict_merge.simps asset_dict_merge.simps)
next
  case (2 add_keys rtn_dct)
  then show ?case by simp
next
  case (3 add_keys rtn_dct merge_dct rest)
  let ?layer = "if \<not> add_keys then restrict_keys rtn_dct merge_dct else merge_dct"
  show ?case
  proof
    assume a: "asset_merge_dicts add_keys rtn_dct (merge_dct # rest) = Inr r"
    then obtain r' where r': "asset_merge_items add_keys rtn_dct ?layer = Inr r'"
      and rest: "asset_merge_dicts add_keys r' rest = Inr r"
      by (auto split: sum.splits)
    from "3.IH"(1) r' have "merge_items add_keys rtn_dct ?layer = Inr r'" by blast
    moreover from "3.IH"(2) [OF r'] rest have "merge_dicts add_keys r' rest = Inr r" by blast
    ultimately show "merge_dicts add_keys rtn_dct (merge_dct # rest) = Inr r" by simp
  qed
next
  case (4 add_keys rtn_dct)
  then show ?case by simp
next
  case (5 add_keys rtn_dct k v items)
  show ?case
  proof
    assume a: "asset_merge_items add_keys rtn_dct ((k, v) # items) = Inr r"
    then obtain r' where r': "asset_merge_item add_keys rtn_dct k v = Inr r'"
      and rest: "asset_merge_items add_keys r' items = Inr r"
      by (auto split: sum.splits)
    from "5.IH"(1) r' have "merge_item add_keys rtn_dct k v = Inr r'" by blast
    moreover from "5.IH"(2) [OF r'] rest have "merge_items add_keys r' items = Inr r" by blast
    ultimately show "merge_items add_keys rtn_dct ((k, v) # items) = Inr r" by simp
  qed
next
  case (6 add_keys rtn_dct k v)
  show ?case
  proof
    assume a: "asset_merge_item add_keys rtn_dct k v = Inr r"
    show "merge_item add_keys rtn_dct k v = Inr r"
    proof (cases "map_of rtn_dct k")
      case None
      with a show ?thesis by (simp add: merge_item.simps asset_merge_item.simps)
    next
      case (Some old)
      show ?thesis
      proof (cases "truthy old")
        case False
        with a Some show ?thesis by (simp add: merge_item.simps asset_merge_item.simps)
      next
        case True
        with a Some have ty: "type_of v = type_of old"
          by (auto simp: asset_merge_item.simps split: if_splits)
        then have inst: "isinstance v (type_of old)" by (simp add: isinstance_def)
        from a Some True ty inst 6 show ?thesis
          by (cases old; cases v)
             (auto simp: merge_item.simps asset_merge_item.simps split: sum.splits)
      qed
    qed
  qed
qed


text \<open>
  C9: the \<^verbatim>\<open>dict_merge\<close> of \<^verbatim>\<open>asset_scanner\<close> and the one of \<^verbatim>\<open>stac_generator\<close> either
  both return equal results or both raise. They do not: merging \<^verbatim>\<open>{"x": "a"}\<close> with
  \<^verbatim>\<open>{"x": ["a"]}\<close> raises \<^verbatim>\<open>TypeError\<close> in \<^verbatim>\<open>asset_scanner\<close> and returns \<^verbatim>\<open>{"x": ["a"]}\<close>
  in \<^verbatim>\<open>stac_generator\<close>, whose branch of mismatched types reconciles a value with a
  list that contains it.
\<close>

theorem dict_merge_versions_differ:
  "asset_dict_merge True [[(''x'', PStr ''a'')], [(''x'', PList [PStr ''a''])]] = Inl TypeError
   \<and> dict_merge True [[(''x'', PStr ''a'')], [(''x'', PList [PStr ''a''])]]
     = Inr [(''x'', PList [PStr ''a''])]"
  by (simp add: asset_dict_merge.simps asset_merge_item.simps dict_merge.simps
      merge_item.simps isinstance_def)

text \<open>
  C9, amended: whenever the \<^verbatim>\<open>dict_merge\<close> of \<^verbatim>\<open>asset_scanner\<close> returns a result, the one
  of \<^verbatim>\<open>stac_generator\<close> returns the same result, and whenever the one of
  \<^verbatim>\<open>stac_generator\<close> raises, the one of \<^verbatim>\<open>asset_scanner\<close> raises, for every sequence of
  layers and either setting of \<^verbatim>\<open>add_keys\<close>.
\<close>

theorem dict_merge_extends_asset_dict_merge:
  "(asset_dict_merge add_keys args = Inr r \<longrightarrow> dict_merge add_keys args = Inr r)
   \<and> (isl (dict_merge add_keys args) \<longrightarrow> isl (asset_dict_merge add_keys args))"
proof (intro conjI impI)
  assume "asset_dict_merge add_keys args = Inr r"
  then show "dict_merge add_keys args = Inr r" using asset_refines(1) by blast
next
  assume l: "isl (dict_merge add_keys args)"
  show "isl (asset_dict_merge add_keys args)"
  proof (cases "asset_dict_merge add_keys args")
    case (Inl e)
    then show ?thesis by simp
  next
    case (Inr r')
    then have "dict_merge add_keys args = Inr r'" using asset_refines(1) by blast
    with l show ?thesis by simp
  qed
qed

theorem dict_merge_extends_asset_dict_merge_witness:
  "asset_dict_merge True [[(''x'', PInt 1)], [(''x'', PInt 2), (''y'', PList [])]]
     = Inr [(''x'', PInt 2), (''y'', PList [])]
   \<and> dict_merge True [[(''x'', PInt 1)], [(''x'', PInt 2), (''y'', PList [])]]
     = Inr [(''x'', PInt 2), (''y'', PList [])]"
proof -
  let ?args = "[[(''x'', PInt 1)], [(''x'', PInt 2), (''y'', PList [])]]"
  have a: "asset_dict_merge True ?args = Inr [(''x'', PInt 2), (''y'', PList [])]"
    by (simp add: asset_dict_merge.simps asset_merge_item.simps)
  with dict_merge_extends_asset_dict_merge [of True ?args "[(''x'', PInt 2), (''y'', PList [])]"]
  show ?thesis by blast
qed

subsection \<open>The value a step stores\<close>

lemma merge_item_value:
  "merge_item ak rtn k v =
     (case merge_value ak (map_of rtn k) v of
        Inl e \<Rightarrow> Inl e
      | Inr w \<Rightarrow> Inr (dict_set k w rtn))"
  by (auto simp: merge_item.simps merge_value_def
      split: option.splits pyval.splits sum.splits)

lemma keys_dict_set_image: "fst ` set (dict_set k v d) = insert k (fst ` set d)"
proof -
  have "set (map fst (dict_set k v d)) = insert k (set (map fst d))"
    unfolding keys_dict_set by auto
  then show ?thesis by simp
qed

lemma merge_items_lookup:
  assumes "merge_items ak rtn items = Inr r" and "distinct (map fst items)"
  shows "map fst r = map fst rtn @ filter (\<lambda>k. k \<notin> fst ` set rtn) (map fst items)
    \<and> (\<forall>k. case map_of items k of
              None \<Rightarrow> map_of r k = map_of rtn k
            | Some v \<Rightarrow> \<exists>w. merge_value ak (map_of rtn k) v = Inr w \<and> map_of r k = Some w)"
  using assms
proof (induction items arbitrary: rtn)
  case Nil
  then show ?case by simp
next
  case (Cons item items)
  obtain k' v' where item: "item = (k', v')" by (cases item)
  from Cons.prems item obtain w where w: "merge_value ak (map_of rtn k') v' = Inr w"
      and rest: "merge_items ak (dict_set k' w rtn) items = Inr r"
    by (auto simp: merge_item_value split: sum.splits)
  from Cons.prems item have d: "distinct (map fst items)" and nk: "k' \<notin> fst ` set items"
    by auto
  note IH = Cons.IH [OF rest d]
  have keys: "map fst r = map fst (dict_set k' w rtn)
      @ filter (\<lambda>k. k \<notin> fst ` set (dict_set k' w rtn)) (map fst items)"
    using IH by blast
  have look: "case map_of items k of
        None \<Rightarrow> map_of r k = map_of (dict_set k' w rtn) k
      | Some v \<Rightarrow> \<exists>u. merge_value ak (map_of (dict_set k' w rtn) k) v = Inr u
          \<and> map_of r k = Some u" for k
    using IH by blast
  have f: "filter (\<lambda>k. k \<notin> insert k' (fst ` set rtn)) (map fst items)
      = filter (\<lambda>k. k \<notin> fst ` set rtn) (map fst items)"
    using nk by (intro filter_cong) auto
  have "map fst r = map fst rtn @ filter (\<lambda>k. k \<notin> fst ` set rtn) (map fst (item # items))"
    using keys f item by (simp add: keys_dict_set keys_dict_set_image)
  moreover have "case map_of (item # items) k of
        None \<Rightarrow> map_of r k = map_of rtn k
      | Some v \<Rightarrow> \<exists>u. merge_value ak (map_of rtn k) v = Inr u \<and> map_of r k = Some u" for k
  proof (cases "k = k'")
    case True
    have "map_of items k' = None" using nk by (simp add: map_of_eq_None_iff)
    with look [of k'] have "map_of r k' = Some w" by (simp add: map_of_dict_set)
    with True w item show ?thesis by simp
  next
    case False
    with look [of k] item show ?thesis
      by (auto simp: map_of_dict_set split: option.splits)
  qed
  ultimately show ?case by blast
qed


subsection \<open>Union of lists is associative\<close>

lemma first_appearances_cong:
  "(\<And>z. py_in z s = py_in z t) \<Longrightarrow> first_appearances s ys = first_appearances t ys"
proof (induction ys arbitrary: s t)
  case Nil
  show ?case by simp
next
  case (Cons y ys)
  have "py_in z (s @ [y]) = py_in z (t @ [y])" for z using Cons.prems by simp
  from Cons.IH [OF this] Cons.prems show ?case by simp
qed

lemma first_appearances_append:
  "first_appearances s (xs @ ys) = first_appearances s xs @ first_appearances (s @ xs) ys"
  by (induction xs arbitrary: s) auto

lemma py_in_trans: "py_eq z y \<Longrightarrow> py_in y s \<Longrightarrow> py_in z s"
  using py_eq_trans by (auto simp: py_in_set)

lemma first_appearances_subset: "z \<in> set (first_appearances s ys) \<Longrightarrow> z \<in> set ys"
  by (induction ys arbitrary: s) (auto split: if_splits)

lemma py_in_first_appearances:
  "py_in z (s @ first_appearances s ys) = py_in z (s @ ys)"
proof (induction ys arbitrary: s)
  case Nil
  show ?case by simp
next
  case (Cons y ys)
  show ?case
  proof (cases "py_in y s")
    case True
    have "py_in z (s @ first_appearances (s @ [y]) ys) =
        py_in z ((s @ [y]) @ first_appearances (s @ [y]) ys)"
      using True py_in_trans [of z y s] by auto
    also have "\<dots> = py_in z ((s @ [y]) @ ys)" by (rule Cons.IH)
    finally show ?thesis using True by simp
  next
    case False
    with Cons.IH [of "s @ [y]"] show ?thesis by simp
  qed
qed

lemma first_appearances_absorb:
  "(\<And>z. py_in z t \<Longrightarrow> py_in z s) \<Longrightarrow>
   first_appearances s (first_appearances t ys) = first_appearances s ys"
proof (induction ys arbitrary: s t)
  case Nil
  show ?case by simp
next
  case (Cons y ys)
  show ?case
  proof (cases "py_in y t")
    case True
    then have ys: "py_in y s" using Cons.prems by simp
    have "py_in z (t @ [y]) \<Longrightarrow> py_in z s" for z
      using Cons.prems ys py_in_trans [of z y s] by auto
    then have "first_appearances s (first_appearances (t @ [y]) ys) = first_appearances s ys"
      by (rule Cons.IH)
    moreover have "first_appearances (s @ [y]) ys = first_appearances s ys"
      using ys py_in_trans [of _ y s] by (intro first_appearances_cong) auto
    ultimately show ?thesis using True ys by simp
  next
    case False
    have "first_appearances (s @ [y]) (first_appearances (t @ [y]) ys)
        = first_appearances (s @ [y]) ys"
      by (rule Cons.IH) (use Cons.prems in auto)
    with False show ?thesis by simp
  qed
qed

lemma extend_unique_eq: "extend_unique xs ys = xs @ first_appearances xs ys"
  by (rule extend_unique_first_appearances) simp

lemma extend_unique_assoc:
  "extend_unique (extend_unique xs ys) zs = extend_unique xs (extend_unique ys zs)"
proof -
  have "first_appearances (xs @ first_appearances xs ys) zs = first_appearances (xs @ ys) zs"
    by (rule first_appearances_cong) (rule py_in_first_appearances)
  moreover have "first_appearances (xs @ ys) (first_appearances ys zs)
      = first_appearances (xs @ ys) zs"
    by (rule first_appearances_absorb) simp
  ultimately show ?thesis
    by (simp add: extend_unique_eq first_appearances_append)
qed

lemma py_in_extend_unique: "py_in z (extend_unique xs ys) = (py_in z xs \<or> py_in z ys)"
  using py_in_first_appearances [of z xs ys] by (simp add: extend_unique_eq)

lemma extend_unique_nonempty: "xs \<noteq> [] \<Longrightarrow> extend_unique xs ys \<noteq> []"
  by (simp add: extend_unique_eq)

subsection \<open>Associativity\<close>

lemma merge_items_nonempty: "merge_items ak rtn items = Inr r \<Longrightarrow> rtn \<noteq> [] \<Longrightarrow> r \<noteq> []"
proof (induction items arbitrary: rtn)
  case Nil
  then show ?case by simp
next
  case (Cons item items)
  obtain k v where item: "item = (k, v)" by (cases item)
  with Cons.prems obtain w where "merge_items ak (dict_set k w rtn) items = Inr r"
    by (auto simp: merge_item_value split: sum.splits)
  moreover have "dict_set k w rtn \<noteq> []" by (cases rtn) (auto split: if_splits)
  ultimately show ?case by (rule Cons.IH)
qed

lemma dict_merge_nonempty: "dict_merge ak [d1, d2] = Inr m \<Longrightarrow> d1 \<noteq> [] \<Longrightarrow> m \<noteq> []"
  by (auto simp: dict_merge.simps split: sum.splits if_splits dest: merge_items_nonempty)

lemma dict_merge_empty_layer: "dict_merge ak [d, []] = Inr d"
  by (simp add: dict_merge.simps restrict_keys_def)

lemma merge_value_assoc:
  assumes rec: "\<And>da db dc dab dl dbc dr.
      a = PDict da \<Longrightarrow> b = PDict db \<Longrightarrow> c = PDict dc \<Longrightarrow>
      dict_merge True [da, db] = Inr dab \<Longrightarrow> dict_merge True [dab, dc] = Inr dl \<Longrightarrow>
      dict_merge True [db, dc] = Inr dbc \<Longrightarrow> dict_merge True [da, dbc] = Inr dr \<Longrightarrow>
      dl = dr"
    and ab: "merge_value True (Some a) b = Inr ab"
    and l: "merge_value True (Some ab) c = Inr l"
    and bc: "merge_value True (Some b) c = Inr bc"
    and r: "merge_value True (Some a) bc = Inr r"
  shows "l = r"
proof (cases "truthy a")
  case False
  with ab r have "ab = b" "r = bc" by (simp_all add: merge_value_def)
  with l bc show ?thesis by simp
next
  case ta: True
  show ?thesis
  proof (cases "truthy b")
    case False
    with bc have "bc = c" by (simp add: merge_value_def)
    with ta False ab l r show ?thesis
      apply (cases a; cases b; cases c)
      by (cases a; cases b; cases c)
         (auto simp: merge_value_def isinstance_def extend_unique_nonempty dict_merge_empty_layer
               split: if_splits sum.splits dest: dict_merge_nonempty)
  next
    case tb: True
    with ta ab l bc r show ?thesis
      apply (cases a; cases b; cases c)
      apply (auto simp: merge_value_def isinstance_def extend_unique_nonempty dict_merge_empty_layer
              extend_unique_assoc py_in_extend_unique
               split: if_splits sum.splits dest: dict_merge_nonempty)
      subgoal for da db dc dbc dab dr dl
        using rec [of da db dc dab dl dbc dr] by simp
      done
  qed
qed


lemma merge_opt_assoc:
  assumes rec: "\<And>da db dc dab dl dbc dr.
      oa = Some (PDict da) \<Longrightarrow> ob = Some (PDict db) \<Longrightarrow> oc = Some (PDict dc) \<Longrightarrow>
      dict_merge True [da, db] = Inr dab \<Longrightarrow> dict_merge True [dab, dc] = Inr dl \<Longrightarrow>
      dict_merge True [db, dc] = Inr dbc \<Longrightarrow> dict_merge True [da, dbc] = Inr dr \<Longrightarrow>
      dl = dr"
    and ab: "merge_opt True oa ob = Inr oab"
    and l: "merge_opt True oab oc = Inr ol"
    and bc: "merge_opt True ob oc = Inr obc"
    and r: "merge_opt True oa obc = Inr orr"
  shows "ol = orr"
proof (cases oc)
  case None
  with l bc have "ol = oab" "obc = ob" by (simp_all add: merge_opt_def)
  with ab r show ?thesis by simp
next
  case c: (Some c)
  show ?thesis
  proof (cases ob)
    case None
    with ab bc c have "oab = oa" "obc = Some c"
      by (simp_all add: merge_opt_def merge_value_def)
    with l r c show ?thesis by simp
  next
    case b: (Some b)
    show ?thesis
    proof (cases oa)
      case None
      with ab b have "oab = Some b" by (simp add: merge_opt_def merge_value_def)
      with l bc b have "ol = obc" by simp
      moreover from bc b c obtain w where "obc = Some w"
        by (auto simp: merge_opt_def split: sum.splits)
      with r None have "orr = obc" by (simp add: merge_opt_def merge_value_def)
      ultimately show ?thesis by simp
    next
      case a: (Some a)
      from ab a b obtain vab where vab: "merge_value True (Some a) b = Inr vab" "oab = Some vab"
        by (auto simp: merge_opt_def split: sum.splits)
      from l c vab obtain vl where vl: "merge_value True (Some vab) c = Inr vl" "ol = Some vl"
        by (auto simp: merge_opt_def split: sum.splits)
      from bc b c obtain vbc where vbc: "merge_value True (Some b) c = Inr vbc" "obc = Some vbc"
        by (auto simp: merge_opt_def split: sum.splits)
      from r a vbc obtain vr where vr: "merge_value True (Some a) vbc = Inr vr" "orr = Some vr"
        by (auto simp: merge_opt_def split: sum.splits)
      have "vl = vr"
      proof (rule merge_value_assoc [OF _ vab(1) vl(1) vbc(1) vr(1)])
        fix da db dc dab dl dbc dr
        assume "a = PDict da" "b = PDict db" "c = PDict dc"
          "dict_merge True [da, db] = Inr dab" "dict_merge True [dab, dc] = Inr dl"
          "dict_merge True [db, dc] = Inr dbc" "dict_merge True [da, dbc] = Inr dr"
        then show "dl = dr" using rec [of da db dc dab dl dbc dr] a b c by simp
      qed
      with vl vr show ?thesis by simp
    qed
  qed
qed

lemma alist_eqI:
  "distinct (map fst xs) \<Longrightarrow> map fst xs = map fst ys \<Longrightarrow> map_of xs = map_of ys \<Longrightarrow> xs = ys"
proof (induction xs arbitrary: ys)
  case Nil
  then show ?case by simp
next
  case (Cons x xs)
  obtain k v where x: "x = (k, v)" by (cases x)
  from Cons.prems(2) x obtain v' ys' where ys: "ys = (k, v') # ys'"
    by (cases ys) auto
  have pt: "map_of ((k, v) # xs) j = map_of ((k, v') # ys') j" for j
    using Cons.prems(3) x ys by (simp only:)
  from pt [of k] have v: "v = v'" by simp
  have keys: "map fst xs = map fst ys'" using Cons.prems(2) x ys by simp
  have nk: "k \<notin> fst ` set xs" "k \<notin> fst ` set ys'"
    using Cons.prems(1) x keys by (auto simp flip: set_map)
  have "map_of xs j = map_of ys' j" for j
  proof (cases "j = k")
    case True
    have "map_of xs k = None" "map_of ys' k = None"
      using nk by (simp_all add: map_of_eq_None_iff)
    with True show ?thesis by simp
  next
    case False
    with pt [of j] show ?thesis by simp
  qed
  then have "map_of xs = map_of ys'" by (rule ext)
  with Cons.IH [of ys'] Cons.prems(1) keys have "xs = ys'" by simp
  with x ys v show ?case by simp
qed

lemma dict_merge_two_lookup:
  assumes "dict_merge True [a, b] = Inr ab" and "distinct (map fst b)"
  shows "map fst ab = map fst a @ filter (\<lambda>k. k \<notin> fst ` set a) (map fst b)"
    and "merge_opt True (map_of a k) (map_of b k) = Inr (map_of ab k)"
proof -
  from assms(1) have m: "merge_items True a b = Inr ab"
    by (simp add: dict_merge.simps split: sum.splits)
  note lk = merge_items_lookup [OF m assms(2)]
  from lk show "map fst ab = map fst a @ filter (\<lambda>k. k \<notin> fst ` set a) (map fst b)"
    by blast
  from lk have "case map_of b k of
        None \<Rightarrow> map_of ab k = map_of a k
      | Some v \<Rightarrow> \<exists>w. merge_value True (map_of a k) v = Inr w \<and> map_of ab k = Some w"
    by blast
  then show "merge_opt True (map_of a k) (map_of b k) = Inr (map_of ab k)"
    by (auto simp: merge_opt_def split: option.splits)
qed

lemma wf_val_lookup: "wf_val (PDict d) \<Longrightarrow> map_of d k = Some v \<Longrightarrow> wf_val v"
  by (auto simp: wf_items_all dest: map_of_SomeD)

lemma dict_merge_assoc_eq:
  assumes "wf_val (PDict a)" and "wf_val (PDict b)" and "wf_val (PDict c)"
    and "dict_merge True [a, b] = Inr ab" and "dict_merge True [ab, c] = Inr l"
    and "dict_merge True [b, c] = Inr bc" and "dict_merge True [a, bc] = Inr r"
  shows "l = r"
  using assms
proof (induction "size (PDict a)" arbitrary: a b c ab l bc r rule: less_induct)
  case less
  have da: "distinct (map fst a)" and db: "distinct (map fst b)" and dc: "distinct (map fst c)"
    using less.prems(1-3) by simp_all
  note ab = dict_merge_two_lookup [OF less.prems(4) db]
  note l = dict_merge_two_lookup [OF less.prems(5) dc]
  note bc = dict_merge_two_lookup [OF less.prems(6) dc]
  have dbc: "distinct (map fst bc)"
    unfolding bc(1) using db dc by (auto simp flip: set_map)
  note r = dict_merge_two_lookup [OF less.prems(7) dbc]
  have dab: "distinct (map fst ab)"
    unfolding ab(1) using da db by (auto simp flip: set_map)
  have dl: "distinct (map fst l)"
    unfolding l(1) using dab dc by (auto simp flip: set_map)
  have sab: "fst ` set ab = fst ` set a \<union> fst ` set b"
    using arg_cong [OF ab(1), of set] by (auto simp flip: set_map)
  have keys: "map fst l = map fst r"
    unfolding l(1) r(1) ab(1) bc(1) sab by (simp add: conj_commute)
  have "map_of l k = map_of r k" for k
  proof (rule merge_opt_assoc [OF _ ab(2) l(2) bc(2) r(2)])
    fix da' db' dc' dab' dl' dbc' dr'
    assume a: "map_of a k = Some (PDict da')" and b: "map_of b k = Some (PDict db')"
      and c: "map_of c k = Some (PDict dc')"
      and m: "dict_merge True [da', db'] = Inr dab'" "dict_merge True [dab', dc'] = Inr dl'"
        "dict_merge True [db', dc'] = Inr dbc'" "dict_merge True [da', dbc'] = Inr dr'"
    have "size (PDict da') < size (PDict a)"
      using a by (intro size_item_less [of k]) (rule map_of_SomeD)
    moreover have "wf_val (PDict da')" "wf_val (PDict db')" "wf_val (PDict dc')"
      using less.prems(1-3) a b c wf_val_lookup by blast+
    ultimately show "dl' = dr'"
      using less.hyps [of da' db' dc' dab' dl' dbc' dr'] m by blast
  qed
  then have "map_of l = map_of r" by (rule ext)
  with dl keys show ?case by (rule alist_eqI)
qed

subsection \<open>The order of a restricted layer\<close>

text \<open>
  With \<^verbatim>\<open>add_keys=False\<close> Python builds the restricted layer in the iteration order of a
  set. Whatever that order is, the loop over the layer gives the result it gives on the
  order of \<open>restrict_keys\<close>, the same dictionary or the same error.
\<close>

lemma merge_items_raises_iff:
  "distinct (map fst items) \<Longrightarrow>
   isl (merge_items ak rtn items) =
     (\<exists>(k, v)\<in>set items. isl (merge_value ak (map_of rtn k) v))"
proof (induction items arbitrary: rtn)
  case Nil
  show ?case by simp
next
  case (Cons item items)
  obtain k v where item: "item = (k, v)" by (cases item)
  from Cons.prems item have d: "distinct (map fst items)" and nk: "k \<notin> fst ` set items"
    by auto
  show ?case
  proof (cases "merge_value ak (map_of rtn k) v")
    case (Inl e)
    with item show ?thesis by (simp add: merge_item_value)
  next
    case (Inr w)
    have "map_of (dict_set k w rtn) k' = map_of rtn k'" if "(k', v') \<in> set items" for k' v'
    proof -
      have "k' \<noteq> k" using that nk by force
      then show ?thesis by (simp add: map_of_dict_set)
    qed
    then have "(\<exists>(k', v')\<in>set items. isl (merge_value ak (map_of (dict_set k w rtn) k') v'))
        = (\<exists>(k', v')\<in>set items. isl (merge_value ak (map_of rtn k') v'))"
      by (intro bex_cong refl) auto
    with Cons.IH [OF d, of "dict_set k w rtn"] Inr item show ?thesis
      by (simp add: merge_item_value)
  qed
qed

lemma merge_items_order:
  assumes "distinct (map fst rtn)"
    and "distinct (map fst items)" and "distinct (map fst items')"
    and "set items' = set items"
    and "fst ` set items \<subseteq> fst ` set rtn"
  shows "merge_items ak rtn items' = merge_items ak rtn items"
proof (cases "merge_items ak rtn items")
  case (Inl e)
  then have "isl (merge_items ak rtn items')"
    using merge_items_raises_iff [OF assms(2), of ak rtn]
      merge_items_raises_iff [OF assms(3), of ak rtn] assms(4) by simp
  then obtain e' where "merge_items ak rtn items' = Inl e'"
    by (cases "merge_items ak rtn items'") auto
  moreover have "e' = TypeError" "e = TypeError"
    using calculation Inl merge_errors(3) by blast+
  ultimately show ?thesis using Inl by simp
next
  case (Inr r)
  then have "\<not> isl (merge_items ak rtn items')"
    using merge_items_raises_iff [OF assms(2), of ak rtn]
      merge_items_raises_iff [OF assms(3), of ak rtn] assms(4) by simp
  then obtain r' where r': "merge_items ak rtn items' = Inr r'"
    by (cases "merge_items ak rtn items'") auto
  note a = merge_items_lookup [OF Inr assms(2)]
  note b = merge_items_lookup [OF r' assms(3)]
  have f: "filter (\<lambda>k. k \<notin> fst ` set rtn) (map fst items) = []"
    "filter (\<lambda>k. k \<notin> fst ` set rtn) (map fst items') = []"
    using assms(4,5) by (auto simp: filter_empty_conv)
  have keys: "map fst r' = map fst r" using a b f by simp
  have m: "map_of items' = map_of items"
    using assms(2-4) by (simp add: map_of_inject_set)
  have la: "case map_of items k of
        None \<Rightarrow> map_of r k = map_of rtn k
      | Some v \<Rightarrow> \<exists>w. merge_value ak (map_of rtn k) v = Inr w \<and> map_of r k = Some w" for k
    using a by blast
  have lb: "case map_of items k of
        None \<Rightarrow> map_of r' k = map_of rtn k
      | Some v \<Rightarrow> \<exists>w. merge_value ak (map_of rtn k) v = Inr w \<and> map_of r' k = Some w" for k
    using b m by simp
  have "map_of r' k = map_of r k" for k
    using la [of k] lb [of k] by (cases "map_of items k") auto
  then have "map_of r' = map_of r" by (rule ext)
  moreover have "distinct (map fst r')" using keys a f assms(1) by simp
  ultimately have "r' = r" using keys by (intro alist_eqI)
  with Inr r' show ?thesis by simp
qed

lemma restrict_keys_order:
  assumes "distinct (map fst rtn_dct)" and "distinct (map fst merge_dct)"
    and "distinct (map fst shared)" and "set shared = set (restrict_keys rtn_dct merge_dct)"
  shows "merge_items ak rtn_dct shared = merge_items ak rtn_dct (restrict_keys rtn_dct merge_dct)"
proof (rule merge_items_order [OF assms(1) _ assms(3,4)])
  show "distinct (map fst (restrict_keys rtn_dct merge_dct))"
    using assms(2) by (simp add: restrict_keys_def distinct_map_filter)
  show "fst ` set (restrict_keys rtn_dct merge_dct) \<subseteq> fst ` set rtn_dct"
    by (force simp: restrict_keys_def)
qed

subsection \<open>Merging keeps dictionaries well formed\<close>

lemma wf_dict_set:
  "wf_val (PDict d) \<Longrightarrow> wf_val w \<Longrightarrow> wf_val (PDict (dict_set k w d))"
  by (induction d) (auto simp: keys_dict_set_image)

lemma wf_extend_unique: "wf_vals xs \<Longrightarrow> wf_vals ys \<Longrightarrow> wf_vals (extend_unique xs ys)"
  by (auto simp: wf_vals_all extend_unique_eq dest: first_appearances_subset)

lemma merge_wf:
  "(dict_merge ak args = Inr r \<longrightarrow> (\<forall>d\<in>set args. wf_val (PDict d)) \<longrightarrow> wf_val (PDict r))"
  "(merge_dicts ak rtn ls = Inr r \<longrightarrow> wf_val (PDict rtn) \<longrightarrow> (\<forall>d\<in>set ls. wf_val (PDict d))
      \<longrightarrow> wf_val (PDict r))"
  "(merge_items ak rtn items = Inr r \<longrightarrow> wf_val (PDict rtn) \<longrightarrow> wf_items items
      \<longrightarrow> wf_val (PDict r))"
  "(merge_item ak rtn k v = Inr r \<longrightarrow> wf_val (PDict rtn) \<longrightarrow> wf_val v \<longrightarrow> wf_val (PDict r))"
proof (induction ak args and ak rtn ls and ak rtn items and ak rtn k v
    arbitrary: r and r and r and r
    rule: dict_merge_merge_dicts_merge_items_merge_item.induct)
  case (1 add_keys args)
  show ?case
  proof (intro impI)
    assume a: "dict_merge add_keys args = Inr r" and w: "\<forall>d\<in>set args. wf_val (PDict d)"
    from a have len: "2 \<le> length args"
      and m: "merge_dicts add_keys (hd args) (tl args) = Inr r"
      by (auto simp: dict_merge.simps split: if_splits)
    from len obtain x xs where args: "args = x # xs" by (cases args) auto
    with 1 len m w show "wf_val (PDict r)" by auto
  qed
next
  case (2 add_keys rtn_dct)
  then show ?case by simp
next
  case (3 add_keys rtn_dct merge_dct rest)
  let ?layer = "if \<not> add_keys then restrict_keys rtn_dct merge_dct else merge_dct"
  show ?case
  proof (intro impI)
    assume a: "merge_dicts add_keys rtn_dct (merge_dct # rest) = Inr r"
      and w: "wf_val (PDict rtn_dct)" and ws: "\<forall>d\<in>set (merge_dct # rest). wf_val (PDict d)"
    from a obtain r' where r': "merge_items add_keys rtn_dct ?layer = Inr r'"
      and rest: "merge_dicts add_keys r' rest = Inr r"
      by (auto split: sum.splits)
    have "wf_items ?layer"
      using ws by (auto simp: wf_items_all restrict_keys_def)
    with "3.IH"(1) r' w have "wf_val (PDict r')" by blast
    with "3.IH"(2) [OF r'] rest ws show "wf_val (PDict r)" by auto
  qed
next
  case (4 add_keys rtn_dct)
  then show ?case by simp
next
  case (5 add_keys rtn_dct k v items)
  show ?case
  proof (intro impI)
    assume a: "merge_items add_keys rtn_dct ((k, v) # items) = Inr r"
      and w: "wf_val (PDict rtn_dct)" and ws: "wf_items ((k, v) # items)"
    from a obtain r' where r': "merge_item add_keys rtn_dct k v = Inr r'"
      and rest: "merge_items add_keys r' items = Inr r"
      by (auto split: sum.splits)
    from "5.IH"(1) r' w ws have "wf_val (PDict r')" by auto
    with "5.IH"(2) [OF r'] rest ws show "wf_val (PDict r)" by auto
  qed
next
  case (6 add_keys rtn_dct k v)
  show ?case
  proof (intro impI)
    assume a: "merge_item add_keys rtn_dct k v = Inr r"
      and w: "wf_val (PDict rtn_dct)" and wv: "wf_val v"
    from a obtain u where u: "merge_value add_keys (map_of rtn_dct k) v = Inr u"
      and r: "r = dict_set k u rtn_dct"
      by (auto simp: merge_item_value split: sum.splits)
    have "wf_val u"
    proof (cases "map_of rtn_dct k")
      case None
      with u wv show ?thesis by (simp add: merge_value_def)
    next
      case (Some old)
      then have wo: "wf_val old" using w wf_val_lookup by blast
      show ?thesis
      proof (cases "truthy old \<and> isinstance v (type_of old)")
        case False
        with u Some wv wo show ?thesis
          by (auto simp: merge_value_def split: if_splits)
      next
        case True
        show ?thesis
        proof (cases "\<exists>d1 d2. old = PDict d1 \<and> v = PDict d2")
          case dd: True
          then obtain d1 d2 where d: "old = PDict d1" "v = PDict d2" by blast
          with u Some True obtain m where m: "dict_merge add_keys [d1, d2] = Inr m" "u = PDict m"
            by (auto simp: merge_value_def split: sum.splits)
          from "6.IH" [OF Some _ _ _ d(1) d(2)] True d m wo wv
          show ?thesis by (auto simp: isinstance_def)
        next
          case False
          with u Some True wv wo show ?thesis
            by (cases old; cases v)
               (auto simp: merge_value_def isinstance_def wf_extend_unique)
        qed
      qed
    qed
    with r w show "wf_val (PDict r)" using wf_dict_set by blast
  qed
qed


text \<open>
  On values the merge is associative with \<^verbatim>\<open>add_keys=True\<close>: when \<open>dict_merge [a, b]\<close>,
  \<open>dict_merge [ab, c]\<close>, \<open>dict_merge [b, c]\<close> and \<open>dict_merge [a, bc]\<close> all return, the
  two nested merges and the merge of the three layers return the same mapping, the same
  keys in the same order with the same values. This is about the value functions, that
  is about layers in which no list object is shared; for the code on shared list
  objects see \<open>h_dict_merge\<close>.
\<close>

lemma dict_merge_assoc_values:
  assumes "wf_dict a" and "wf_dict b" and "wf_dict c"
    and "dict_merge True [a, b] = Inr ab" and "dict_merge True [ab, c] = Inr l"
    and "dict_merge True [b, c] = Inr bc" and "dict_merge True [a, bc] = Inr r"
  shows "l = r \<and> dict_merge True [a, b, c] = Inr l \<and> py_eq (PDict l) (PDict r)"
proof -
  have wf: "wf_val (PDict a)" "wf_val (PDict b)" "wf_val (PDict c)"
    using assms(1-3) by (simp_all add: wf_dict_def)
  have eq: "l = r"
    by (rule dict_merge_assoc_eq [OF wf assms(4-7)])
  have "wf_val (PDict ab)"
    using merge_wf(1) [of True "[a, b]" ab] assms(4) wf by simp
  then have "wf_val (PDict l)"
    using merge_wf(1) [of True "[ab, c]" l] assms(5) wf by simp
  then have "py_eq (PDict l) (PDict l)" by (rule py_eq_refl)
  moreover have "dict_merge True [a, b, c] = Inr l"
  proof -
    have "merge_items True a b = Inr ab"
      using assms(4) by (simp add: dict_merge.simps split: sum.splits)
    moreover have "merge_items True ab c = Inr l"
      using assms(5) by (simp add: dict_merge.simps split: sum.splits)
    ultimately show ?thesis by (simp add: dict_merge.simps)
  qed
  ultimately show ?thesis using eq by simp
qed

lemma dict_merge_assoc_values_example:
  "dict_merge True [[(''x'', PList [PInt 1]), (''y'', PDict [(''p'', PInt 1)])],
                    [(''x'', PList [PInt 2]), (''y'', PDict [(''q'', PInt 2)])]]
     = Inr [(''x'', PList [PInt 1, PInt 2]), (''y'', PDict [(''p'', PInt 1), (''q'', PInt 2)])]
   \<and> dict_merge True [[(''x'', PList [PInt 2]), (''y'', PDict [(''q'', PInt 2)])],
                      [(''x'', PInt 2), (''z'', PStr ''s'')]]
     = Inr [(''x'', PList [PInt 2]), (''y'', PDict [(''q'', PInt 2)]), (''z'', PStr ''s'')] 
   \<and> dict_merge True [[(''x'', PList [PInt 1]), (''y'', PDict [(''p'', PInt 1)])],
                      [(''x'', PList [PInt 2]), (''y'', PDict [(''q'', PInt 2)])],
                      [(''x'', PInt 2), (''z'', PStr ''s'')]]
     = Inr [(''x'', PList [PInt 1, PInt 2]), (''y'', PDict [(''p'', PInt 1), (''q'', PInt 2)]),
            (''z'', PStr ''s'')]
   \<and> dict_merge True [[(''x'', PList [PInt 1]), (''y'', PDict [(''p'', PInt 1)])],
                      [(''x'', PList [PInt 2]), (''y'', PDict [(''q'', PInt 2)]),
                       (''z'', PStr ''s'')]]
     = Inr [(''x'', PList [PInt 1, PInt 2]), (''y'', PDict [(''p'', PInt 1), (''q'', PInt 2)]),
            (''z'', PStr ''s'')]"
proof -
  let ?a = "[(''x'', PList [PInt 1]), (''y'', PDict [(''p'', PInt 1)])]"
  let ?b = "[(''x'', PList [PInt 2]), (''y'', PDict [(''q'', PInt 2)])]"
  let ?c = "[(''x'', PInt 2), (''z'', PStr ''s'')]"
  let ?ab = "[(''x'', PList [PInt 1, PInt 2]), (''y'', PDict [(''p'', PInt 1), (''q'', PInt 2)])]"
  let ?bc = "[(''x'', PList [PInt 2]), (''y'', PDict [(''q'', PInt 2)]), (''z'', PStr ''s'')]"
  let ?l = "[(''x'', PList [PInt 1, PInt 2]), (''y'', PDict [(''p'', PInt 1), (''q'', PInt 2)]),
             (''z'', PStr ''s'')]"
  have wf: "wf_dict ?a" "wf_dict ?b" "wf_dict ?c"
    by (simp_all add: wf_dict_def)
  have ab: "dict_merge True [?a, ?b] = Inr ?ab"
    by (simp add: dict_merge.simps merge_item.simps isinstance_def)
  have l: "dict_merge True [?ab, ?c] = Inr ?l"
    by (simp add: dict_merge.simps merge_item.simps isinstance_def)
  have bc: "dict_merge True [?b, ?c] = Inr ?bc"
    by (simp add: dict_merge.simps merge_item.simps isinstance_def)
  obtain r where r: "dict_merge True [?a, ?bc] = Inr r"
    by (simp add: dict_merge.simps merge_item.simps isinstance_def)
  from dict_merge_assoc_values [OF wf ab l bc r] r ab bc show ?thesis by simp
qed

text \<open>
  With \<^verbatim>\<open>add_keys=False\<close> the merge is not associative: a key that the middle layer does
  not have is dropped from the last layer by the inner merge of the right-nested call.
\<close>

lemma dict_merge_not_associative_without_add_keys:
  "dict_merge False [[(''x'', PInt 1)], []] = Inr [(''x'', PInt 1)]
   \<and> dict_merge False [[(''x'', PInt 1)], [(''x'', PInt 2)]] = Inr [(''x'', PInt 2)]
   \<and> dict_merge False [[], [(''x'', PInt 2)]] = Inr []
   \<and> dict_merge False [[(''x'', PInt 1)], []] = Inr [(''x'', PInt 1)]"
  by (simp add: dict_merge.simps merge_item.simps isinstance_def restrict_keys_def)

section \<open>Properties of the deep merge on objects\<close>

lemma h_extend_unique_dicts:
  "h_extend_unique n l v h = Inr h' \<Longrightarrow> dicts h' = dicts h \<and> next_dict h' = next_dict h"
  by (induction v arbitrary: h) (auto simp: list_append_def split: sum.splits if_splits)

lemma h_merge_frame:
  "(h_dict_merge n ak args h = Inr (r, h') \<longrightarrow>
      next_dict h \<le> r \<and> r < next_dict h' \<and> (\<forall>d<next_dict h. dicts h' d = dicts h d))"
  "(h_merge_dicts n ak rtn ls h = Inr h' \<longrightarrow> b \<le> rtn \<longrightarrow> rtn < next_dict h \<longrightarrow> b \<le> next_dict h \<longrightarrow>
      next_dict h \<le> next_dict h' \<and> (\<forall>d<b. dicts h' d = dicts h d))"
  "(h_merge_items n ak rtn items h = Inr h' \<longrightarrow> b \<le> rtn \<longrightarrow> rtn < next_dict h \<longrightarrow> b \<le> next_dict h \<longrightarrow>
      next_dict h \<le> next_dict h' \<and> (\<forall>d<b. dicts h' d = dicts h d))"
  "(h_merge_item n ak rtn k v h = Inr h' \<longrightarrow> b \<le> rtn \<longrightarrow> rtn < next_dict h \<longrightarrow> b \<le> next_dict h \<longrightarrow>
      next_dict h \<le> next_dict h' \<and> (\<forall>d<b. dicts h' d = dicts h d))"
proof (induction n ak args h and n ak rtn ls h and n ak rtn items h and n ak rtn k v h
    arbitrary: r h' and h' b and h' b and h' b
    rule: h_dict_merge_h_merge_dicts_h_merge_items_h_merge_item.induct)
  case (1 add_keys args h)
  show ?case by simp
next
  case (2 n add_keys args h)
  show ?case
  proof (intro impI)
    assume a: "h_dict_merge (Suc n) add_keys args h = Inr (r, h')"
    let ?h1 = "snd (copy_dict h (dicts h (hd args)))"
    from a have len: "2 \<le> length args" and r: "r = next_dict h"
      and m: "h_merge_dicts n add_keys (next_dict h) (tl args) ?h1 = Inr h'"
      by (auto simp: copy_dict_def split: if_splits sum.splits)
    have "next_dict ?h1 \<le> next_dict h' \<and> (\<forall>d<next_dict h. dicts h' d = dicts ?h1 d)"
      using "2.IH" [of "next_dict h" ?h1 h' "next_dict h"] len m
      by (simp add: copy_dict_def)
    with r show "next_dict h \<le> r \<and> r < next_dict h' \<and> (\<forall>d<next_dict h. dicts h' d = dicts h d)"
      by (auto simp: copy_dict_def)
  qed
next
  case (3 n add_keys rtn_dct h)
  show ?case by simp
next
  case (4 n add_keys rtn_dct merge_dct rest h)
  show ?case
  proof (intro impI)
    assume a: "h_merge_dicts n add_keys rtn_dct (merge_dct # rest) h = Inr h'"
      and b: "b \<le> rtn_dct" "rtn_dct < next_dict h" "b \<le> next_dict h"
    obtain m1 h1 where c: "(if \<not> add_keys
            then copy_dict h (filter (\<lambda>(key, v). key \<in> fst ` set (dicts h rtn_dct))
                                (dicts h merge_dct))
            else (merge_dct, h)) = (m1, h1)"
      by (cases "(if \<not> add_keys
            then copy_dict h (filter (\<lambda>(key, v). key \<in> fst ` set (dicts h rtn_dct))
                                (dicts h merge_dct))
            else (merge_dct, h))")
    from a c obtain h2 where i: "h_merge_items n add_keys rtn_dct (dicts h1 m1) h1 = Inr h2"
      and d: "h_merge_dicts n add_keys rtn_dct rest h2 = Inr h'"
      by (auto split: sum.splits)
    have h1: "next_dict h \<le> next_dict h1" "\<forall>d<b. dicts h1 d = dicts h d"
      using c b by (auto simp: copy_dict_def split: if_splits)
    have 1: "next_dict h1 \<le> next_dict h2 \<and> (\<forall>d<b. dicts h2 d = dicts h1 d)"
      using "4.IH"(1) [OF c [symmetric], of h2 b] i b h1 by simp
    have 2: "next_dict h2 \<le> next_dict h' \<and> (\<forall>d<b. dicts h' d = dicts h2 d)"
      using "4.IH"(2) [OF c [symmetric] i, of h' b] d b h1 1 by simp
    from h1 1 2 show "next_dict h \<le> next_dict h' \<and> (\<forall>d<b. dicts h' d = dicts h d)"
      by auto
  qed
next
  case (5 n add_keys rtn_dct h)
  show ?case by simp
next
  case (6 n add_keys rtn_dct k v items h)
  show ?case
  proof (intro impI)
    assume a: "h_merge_items n add_keys rtn_dct ((k, v) # items) h = Inr h'"
      and b: "b \<le> rtn_dct" "rtn_dct < next_dict h" "b \<le> next_dict h"
    from a obtain h1 where i: "h_merge_item n add_keys rtn_dct k v h = Inr h1"
      and d: "h_merge_items n add_keys rtn_dct items h1 = Inr h'"
      by (auto split: sum.splits)
    have 1: "next_dict h \<le> next_dict h1 \<and> (\<forall>d<b. dicts h1 d = dicts h d)"
      using "6.IH"(1) [of h1 b] i b by simp
    have 2: "next_dict h1 \<le> next_dict h' \<and> (\<forall>d<b. dicts h' d = dicts h1 d)"
      using "6.IH"(2) [OF i, of h' b] d b 1 by simp
    from 1 2 show "next_dict h \<le> next_dict h' \<and> (\<forall>d<b. dicts h' d = dicts h d)"
      by auto
  qed
next
  case (7 n add_keys rtn_dct k v h)
  show ?case
  proof (intro impI)
    assume a: "h_merge_item n add_keys rtn_dct k v h = Inr h'"
      and b: "b \<le> rtn_dct" "rtn_dct < next_dict h" "b \<le> next_dict h"
    have set: "next_dict h \<le> next_dict (set_item h0 rtn_dct k w)
        \<and> (\<forall>d<b. dicts (set_item h0 rtn_dct k w) d = dicts h d)"
      if "next_dict h \<le> next_dict h0" "\<forall>d<b. dicts h0 d = dicts h d" for h0 w
      using that b by (auto simp: set_item_def)
    show "next_dict h \<le> next_dict h' \<and> (\<forall>d<b. dicts h' d = dicts h d)"
    proof (cases "map_of (dicts h rtn_dct) k")
      case None
      with a set [of h v] show ?thesis by auto
    next
      case (Some old)
      show ?thesis
      proof (cases "h_truthy h old \<and> h_isinstance v (h_type old)")
        case False
        with a Some set [of h v] set [of h old] show ?thesis
          by (auto split: if_splits sum.splits)
      next
        case True
        show ?thesis
        proof (cases "\<exists>d1 d2. old = HDictRef d1 \<and> v = HDictRef d2")
          case dd: True
          then obtain d1 d2 where o: "old = HDictRef d1" "v = HDictRef d2" by blast
          with a Some True obtain m h1 where m: "h_dict_merge n add_keys [d1, d2] h = Inr (m, h1)"
            and h': "h' = set_item h1 rtn_dct k (HDictRef m)"
            by (auto split: sum.splits)
          from "7.IH" [OF Some _ _ _ o(1) o(2), of m h1] True m
          have "next_dict h \<le> m \<and> m < next_dict h1 \<and> (\<forall>d<next_dict h. dicts h1 d = dicts h d)"
            by simp
          with h' b set [of h1 "HDictRef m"] show ?thesis by auto
        next
          case False
          with a Some True set [of h v] show ?thesis
            by (cases old; cases v)
               (auto simp: h_isinstance_def dest: h_extend_unique_dicts)
        qed
      qed
    qed
  qed
qed


text \<open>
  The copies protect the dictionary objects: a dictionary that exists before the call
  has the same entries after it.
\<close>

lemma h_dict_merge_keeps_dicts:
  "h_dict_merge n ak args h = Inr (r, h') \<Longrightarrow> d < next_dict h \<Longrightarrow> dicts h' d = dicts h d"
  using h_merge_frame(1) [of n ak args h r h'] by simp

text \<open>
  C2: \<^verbatim>\<open>dict_merge\<close> never changes its input layers, nested mappings and sequences
  included. The list objects are not protected: the accumulator is a shallow copy of
  the first layer, so the list under a key is the same object in both, and the loop
  appends to it in place. After \<^verbatim>\<open>dict_merge({"x": [1, 2]}, {"x": [2, 3]})\<close> the first
  layer reads \<^verbatim>\<open>{"x": [1, 2, 3]}\<close>.
\<close>

theorem dict_merge_mutates_first_layer:
  "reify 3 example_heap (HDictRef 0) = Some (PDict [(''x'', PList [PInt 1, PInt 2])])
   \<and> reify 3 example_heap (HDictRef 1) = Some (PDict [(''x'', PList [PInt 2, PInt 3])])
   \<and> (case h_dict_merge 3 True [0, 1] example_heap of
         Inl e \<Rightarrow> False
       | Inr (r, h') \<Rightarrow>
           reify 3 h' (HDictRef r) = Some (PDict [(''x'', PList [PInt 1, PInt 2, PInt 3])])
           \<and> reify 3 h' (HDictRef 0) = Some (PDict [(''x'', PList [PInt 1, PInt 2, PInt 3])])
           \<and> reify 3 h' (HDictRef 1) = Some (PDict [(''x'', PList [PInt 2, PInt 3])]))"
  by (simp add: example_heap_def eval_nat_numeral copy_dict_def set_item_def list_append_def
      h_isinstance_def h_eq_def)



text \<open>
  A later layer is changed in the same way once the accumulator has taken its list:
  after \<^verbatim>\<open>dict_merge({}, {"x": [1]}, {"x": [2]})\<close> the second layer reads
  \<^verbatim>\<open>{"x": [1, 2]}\<close>.
\<close>

lemma dict_merge_mutates_adopted_layer:
  "reify 3 example_heap3 (HDictRef 1) = Some (PDict [(''x'', PList [PInt 1])])
   \<and> (case h_dict_merge 3 True [0, 1, 2] example_heap3 of
         Inl e \<Rightarrow> False
       | Inr (r, h') \<Rightarrow>
           reify 3 h' (HDictRef r) = Some (PDict [(''x'', PList [PInt 1, PInt 2])])
           \<and> reify 3 h' (HDictRef 1) = Some (PDict [(''x'', PList [PInt 1, PInt 2])]))"
  by (simp add: example_heap3_def eval_nat_numeral copy_dict_def set_item_def list_append_def
      h_isinstance_def h_eq_def)

text \<open>
  C6: for all mappings \<open>a\<close>, \<open>b\<close>, \<open>c\<close> such that no merge step raises a type conflict,
  \<^verbatim>\<open>dict_merge(dict_merge(a, b), c)\<close>, \<^verbatim>\<open>dict_merge(a, dict_merge(b, c))\<close> and
  \<^verbatim>\<open>dict_merge(a, b, c)\<close> are equal. The in-place \<^verbatim>\<open>append\<close> breaks it when a list object
  is shared: with \<^verbatim>\<open>L = [1]\<close>, \<^verbatim>\<open>a = {"x": L, "y": L}\<close>, \<^verbatim>\<open>b = {"x": [2], "y": [3]}\<close> and
  \<^verbatim>\<open>c = {"x": [4]}\<close>, each expression evaluated on these layers as they are at first, no
  merge raises, the left-nested merge and the merge of the three layers return
  \<^verbatim>\<open>{"x": [1, 2, 3, 4], "y": [1, 2, 3, 4]}\<close>, and the right-nested merge returns
  \<^verbatim>\<open>{"x": [1, 2, 4, 3], "y": [1, 2, 4, 3]}\<close>: every append to \<^verbatim>\<open>L\<close> shows under both keys,
  and the two nestings append in different orders.
\<close>

theorem dict_merge_shared_list_not_associative:
  "reify 3 shared_list_heap (HDictRef 0)
     = Some (PDict [(''x'', PList [PInt 1]), (''y'', PList [PInt 1])])
   \<and> reify 3 shared_list_heap (HDictRef 1)
     = Some (PDict [(''x'', PList [PInt 2]), (''y'', PList [PInt 3])])
   \<and> reify 3 shared_list_heap (HDictRef 2) = Some (PDict [(''x'', PList [PInt 4])])
   \<and> (case h_dict_merge 3 True [0, 1] shared_list_heap of
         Inl e \<Rightarrow> False
       | Inr (ab, h1) \<Rightarrow>
           (case h_dict_merge 3 True [ab, 2] h1 of
              Inl e \<Rightarrow> False
            | Inr (l, h2) \<Rightarrow>
                reify 3 h2 (HDictRef l)
                  = Some (PDict [(''x'', PList [PInt 1, PInt 2, PInt 3, PInt 4]),
                                 (''y'', PList [PInt 1, PInt 2, PInt 3, PInt 4])])))
   \<and> (case h_dict_merge 3 True [1, 2] shared_list_heap of
         Inl e \<Rightarrow> False
       | Inr (bc, h1) \<Rightarrow>
           (case h_dict_merge 3 True [0, bc] h1 of
              Inl e \<Rightarrow> False
            | Inr (r, h2) \<Rightarrow>
                reify 3 h2 (HDictRef r)
                  = Some (PDict [(''x'', PList [PInt 1, PInt 2, PInt 4, PInt 3]),
                                 (''y'', PList [PInt 1, PInt 2, PInt 4, PInt 3])])))
   \<and> (case h_dict_merge 3 True [0, 1, 2] shared_list_heap of
         Inl e \<Rightarrow> False
       | Inr (m, h1) \<Rightarrow>
           reify 3 h1 (HDictRef m)
             = Some (PDict [(''x'', PList [PInt 1, PInt 2, PInt 3, PInt 4]),
                            (''y'', PList [PInt 1, PInt 2, PInt 3, PInt 4])]))
   \<and> \<not> py_eq (PDict [(''x'', PList [PInt 1, PInt 2, PInt 3, PInt 4]),
                      (''y'', PList [PInt 1, PInt 2, PInt 3, PInt 4])])
               (PDict [(''x'', PList [PInt 1, PInt 2, PInt 4, PInt 3]),
                      (''y'', PList [PInt 1, PInt 2, PInt 4, PInt 3])])"
  by (simp add: shared_list_heap_def eval_nat_numeral copy_dict_def set_item_def list_append_def
      h_isinstance_def h_eq_def)


section \<open>Properties of nested lookup\<close>

lemma nested_get_loop_positional:
  "last_key \<notin> set pre \<Longrightarrow>
   nested_get_loop last_key (pre @ [last_key]) d =
     (case walk_keys pre d of Inl e \<Rightarrow> Inl e | Inr d' \<Rightarrow> py_get d' last_key PNone)"
  by (induction pre arbitrary: d) (auto split: sum.splits)

text \<open>
  Where the last key does not occur earlier in the path, the loop is the positional
  lookup, errors included.
\<close>

lemma nested_get_positional:
  assumes "key_list \<noteq> []" and "last key_list \<notin> set (butlast key_list)"
  shows "nested_get key_list input_dict = positional_get key_list input_dict"
proof -
  have "key_list = butlast key_list @ [last key_list]"
    using assms(1) by simp
  then have "nested_get_loop (last key_list) key_list (PDict input_dict) =
      (case walk_keys (butlast key_list) (PDict input_dict) of
         Inl e \<Rightarrow> Inl e | Inr d' \<Rightarrow> py_get d' (last key_list) PNone)"
    using nested_get_loop_positional [OF assms(2), of "PDict input_dict"] by simp
  with assms(1) show ?thesis
    by (simp add: nested_get_def positional_get_def)
qed

text \<open>
  C4: for every non-empty key path, \<^verbatim>\<open>nested_get\<close> walks the source through all but the
  last key and then looks the last key up. The loop does not do so on a path whose last
  key also occurs earlier: it compares each key with the value of the last key, not
  with its position, and returns at the first occurrence. On the path \<^verbatim>\<open>["a","b","a"]\<close>
  and the source \<^verbatim>\<open>{"a": {"b": {"a": 5}}}\<close> the positional lookup finds \<^verbatim>\<open>5\<close> and
  \<^verbatim>\<open>nested_get\<close> returns the whole dictionary stored under \<^verbatim>\<open>"a"\<close>.
\<close>

theorem nested_get_repeated_last_key:
  "nested_get [''a'', ''b'', ''a'']
     [(''a'', PDict [(''b'', PDict [(''a'', PInt 5)])])]
   = Inr (PDict [(''b'', PDict [(''a'', PInt 5)])])
   \<and> positional_get [''a'', ''b'', ''a'']
     [(''a'', PDict [(''b'', PDict [(''a'', PInt 5)])])]
   = Inr (PInt 5)"
  by (simp add: nested_get_def positional_get_def)

text \<open>
  C10: \<^verbatim>\<open>nested_get\<close> applied to an empty key list fails with an index error when it
  reads the last key, whatever the mapping is; it does not return \<^verbatim>\<open>None\<close>.
\<close>

theorem nested_get_empty_path: "nested_get [] input_dict = Inl IndexError"
  by (simp add: nested_get_def)

section \<open>Properties of dotted keys\<close>

lemma split_dot_no_dot: "s \<in> set (split_dot key) \<Longrightarrow> CHR ''.'' \<notin> set s"
proof (induction key arbitrary: s)
  case Nil
  then show ?case by simp
next
  case (Cons c cs)
  obtain t ts where e: "split_dot cs = t # ts"
    using split_dot_nonempty [of cs] by (cases "split_dot cs") auto
  show ?case
  proof (cases "c = CHR ''.''")
    case True
    with Cons show ?thesis by auto
  next
    case False
    with Cons.prems e have "s = c # t \<or> s \<in> set ts" by auto
    then show ?thesis
    proof
      assume "s = c # t"
      moreover have "CHR ''.'' \<notin> set t" using Cons.IH [of t] e by simp
      ultimately show ?thesis using False by auto
    next
      assume "s \<in> set ts"
      then show ?thesis using Cons.IH [of s] e by simp
    qed
  qed
qed

lemma split_dot_dot_free: "CHR ''.'' \<notin> set s \<Longrightarrow> split_dot s = [s]"
  by (induction s) auto

lemma split_dot_append:
  "CHR ''.'' \<notin> set s \<Longrightarrow> split_dot (s @ CHR ''.'' # rest) = s # split_dot rest"
  by (induction s) auto

lemma split_join_dot:
  "segs \<noteq> [] \<Longrightarrow> \<forall>s\<in>set segs. CHR ''.'' \<notin> set s \<Longrightarrow> split_dot (join_dot segs) = segs"
  by (induction segs rule: join_dot.induct) (auto simp: split_dot_dot_free split_dot_append)

lemma nest_snoc: "nest (segs @ [s]) v = nest segs (PDict [(s, v)])"
  by (induction segs) auto

lemma dot2dict_join:
  "\<forall>s\<in>set segs. s \<noteq> [] \<and> CHR ''.'' \<notin> set s \<Longrightarrow> dot2dict (join_dot segs) v = nest segs v"
proof (induction segs arbitrary: v rule: rev_induct)
  case Nil
  show ?case by (simp add: dot2dict.simps)
next
  case (snoc s segs)
  have ne: "join_dot (segs @ [s]) \<noteq> []"
  proof (cases "segs = []")
    case True
    with snoc.prems show ?thesis by simp
  next
    case False
    then show ?thesis by (simp add: join_dot_snoc)
  qed
  have "split_dot (join_dot (segs @ [s])) = segs @ [s]"
    using snoc.prems by (intro split_join_dot) auto
  then have "dot2dict (join_dot (segs @ [s])) v = dot2dict (join_dot segs) (PDict [(s, v)])"
    using ne by (subst dot2dict.simps) (simp add: Let_def)
  also have "\<dots> = nest segs (PDict [(s, v)])"
    using snoc.prems by (intro snoc.IH) auto
  finally show ?case by (simp add: nest_snoc)
qed

text \<open>
  For every dotted key made of non-empty segments, \<^verbatim>\<open>dot2dict\<close> builds the single-branch
  nested dictionary over the segments, the value at the leaf named by the last one.
\<close>

lemma dot2dict_nest:
  assumes "\<forall>s\<in>set (split_dot key). s \<noteq> []"
  shows "dot2dict key v = nest (split_dot key) v"
proof -
  have "\<forall>s\<in>set (split_dot key). s \<noteq> [] \<and> CHR ''.'' \<notin> set s"
    using assms split_dot_no_dot by blast
  from dot2dict_join [OF this] show ?thesis
    by (simp add: join_split_dot)
qed

lemma walk_keys_nest: "walk_keys pre (nest (pre @ rest) v) = Inr (nest rest v)"
  by (induction pre) auto

text \<open>
  Where the last segment does not occur among the earlier ones, looking the segments up
  in the dictionary of \<^verbatim>\<open>dot2dict\<close> gives the value back.
\<close>

lemma dot2dict_round_trip:
  assumes segs: "\<forall>s\<in>set (split_dot key). s \<noteq> []"
    and fresh: "last (split_dot key) \<notin> set (butlast (split_dot key))"
    and d: "dot2dict key v = PDict d"
  shows "nested_get (split_dot key) d = Inr v"
proof -
  let ?segs = "split_dot key"
  have ne: "?segs \<noteq> []" by (rule split_dot_nonempty)
  then have sp: "?segs = butlast ?segs @ [last ?segs]" by simp
  have "PDict d = nest ?segs v"
    using dot2dict_nest [OF segs] d by simp
  then have "walk_keys (butlast ?segs) (PDict d) = Inr (nest [last ?segs] v)"
    using walk_keys_nest [of "butlast ?segs" "[last ?segs]" v] sp by simp
  then have "positional_get ?segs d = Inr v"
    using ne by (simp add: positional_get_def)
  then show ?thesis
    using nested_get_positional [OF ne fresh] by simp
qed

text \<open>
  C8: for every dotted key made of non-empty segments, \<^verbatim>\<open>nested_get\<close> applied to the
  segments and the dictionary of \<^verbatim>\<open>dot2dict\<close> returns the value. The dictionary is the one
  the claim describes, and the round trip fails on a key whose last segment also occurs
  earlier: for \<^verbatim>\<open>"a.b.a"\<close> and the value \<^verbatim>\<open>5\<close>, \<^verbatim>\<open>nested_get\<close> returns the dictionary
  \<^verbatim>\<open>{"b": {"a": 5}}\<close>, not \<^verbatim>\<open>5\<close>.
\<close>

theorem dot2dict_round_trip_repeated_segment:
  "split_dot ''a.b.a'' = [''a'', ''b'', ''a'']
   \<and> dot2dict ''a.b.a'' (PInt 5) = PDict [(''a'', PDict [(''b'', PDict [(''a'', PInt 5)])])]
   \<and> nested_get (split_dot ''a.b.a'') [(''a'', PDict [(''b'', PDict [(''a'', PInt 5)])])]
     = Inr (PDict [(''b'', PDict [(''a'', PInt 5)])])"
  by (simp add: dot2dict.simps nested_get_def)

text \<open>The examples of the specification: \<^verbatim>\<open>dot2dict("a.b.c", 5)\<close> and its round trip.\<close>

lemma dot2dict_example:
  "dot2dict ''a.b.c'' (PInt 5) = PDict [(''a'', PDict [(''b'', PDict [(''c'', PInt 5)])])]
   \<and> nested_get [''a'', ''b'', ''c''] [(''a'', PDict [(''b'', PDict [(''c'', PInt 5)])])]
     = Inr (PInt 5)"
  by (simp add: dot2dict.simps nested_get_def)

section \<open>Properties of loading plugins\<close>

lemma load_loop_specs:
  "\<forall>s\<in>set specs. plugin_spec s \<Longrightarrow>
   load_loop gp specs loaded logged =
     (logged @ diagnostics gp specs, Inr (loaded @ instances gp specs))"
proof (induction specs arbitrary: loaded logged)
  case Nil
  show ?case by simp
next
  case (Cons s specs)
  then obtain kwargs name where s: "s = PDict kwargs" "map_of kwargs ''name'' = Some name"
    by (cases s) auto
  show ?case
  proof (cases "gp kwargs")
    case (Inl exn)
    with s Cons show ?thesis by simp
  next
    case (Inr p)
    with s Cons show ?thesis by simp
  qed
qed

text \<open>
  C3: when the section holds a list of plugin specifications, \<^verbatim>\<open>load_plugins\<close> logs one
  diagnostic, with the plugin name and the exception, for every specification whose
  lookup or construction raises, and goes on; it returns the instances of the others in
  the order of the specifications when there is one at least, a non-empty list, and
  raises \<^verbatim>\<open>NoPluginsError\<close> with the name of the section when there is none.
\<close>

theorem load_plugins_partial_failure:
  assumes "map_of conf conf_section = Some (PList specs)"
    and "\<forall>s\<in>set specs. plugin_spec s"
  shows "load_plugins handler_picker conf entry_point conf_section =
      (diagnostics (handler_picker entry_point) specs,
       if instances (handler_picker entry_point) specs = [] then
         Inl (NoPluginsError (''No plugins were successfully loaded from '' @ conf_section))
       else Inr (instances (handler_picker entry_point) specs))
    \<and> length (instances (handler_picker entry_point) specs)
        + length (diagnostics (handler_picker entry_point) specs) = length specs
    \<and> (\<forall>loaded. snd (load_plugins handler_picker conf entry_point conf_section) = Inr loaded
          \<longrightarrow> loaded \<noteq> [])"
proof -
  have n: "length (instances gp specs) + length (diagnostics gp specs) = length specs"
    for gp :: "pydict \<Rightarrow> 'a + 'b"
    using assms(2)
  proof (induction specs)
    case Nil
    show ?case by simp
  next
    case (Cons s specs)
    then obtain kwargs name where "s = PDict kwargs" "map_of kwargs ''name'' = Some name"
      by (cases s) auto
    with Cons show ?case by (cases "gp kwargs") auto
  qed
  show ?thesis
    using assms n by (simp add: load_plugins_def load_loop_specs)
qed

text \<open>
  The example of the specification: of three specifications the second names a plugin
  that is not registered; the first and the third instance are returned in order and
  one failure is logged.
\<close>

theorem load_plugins_partial_failure_witness:
  "load_plugins
     (\<lambda>entry_point kwargs.
        if map_of kwargs ''name'' = Some (PStr ''missing'') then Inl ''PluginNotFoundError''
        else Inr (entry_point, kwargs))
     [(''extractors'', PList [PDict [(''name'', PStr ''regex'')],
                              PDict [(''name'', PStr ''missing'')],
                              PDict [(''name'', PStr ''header''), (''level'', PInt 2)]])]
     ''stac.extractors'' ''extractors''
   = ([(PStr ''missing'', ''PluginNotFoundError'')],
      Inr [(''stac.extractors'', [(''name'', PStr ''regex'')]),
           (''stac.extractors'', [(''name'', PStr ''header''), (''level'', PInt 2)])])"
proof -
  let ?specs = "[PDict [(''name'', PStr ''regex'')], PDict [(''name'', PStr ''missing'')],
                 PDict [(''name'', PStr ''header''), (''level'', PInt 2)]]"
  let ?conf = "[(''extractors'', PList ?specs)]"
  have a: "map_of ?conf ''extractors'' = Some (PList ?specs)" by simp
  have b: "\<forall>s\<in>set ?specs. plugin_spec s" by simp
  let ?picker = "\<lambda>entry_point kwargs.
      if map_of kwargs ''name'' = Some (PStr ''missing'')
      then Inl ''PluginNotFoundError'' :: string + string \<times> pydict
      else Inr (entry_point, kwargs)"
  from load_plugins_partial_failure [OF a b, of ?picker "''stac.extractors''"]
  show ?thesis by simp
qed

text \<open>
  The handler reads \<^verbatim>\<open>plugin_conf["name"]\<close>: when a specification without a name fails to
  load, the \<^verbatim>\<open>KeyError\<close> of the handler ends the call.
\<close>

lemma load_plugins_nameless_spec:
  "load_plugins (\<lambda>entry_point kwargs. Inl ''PluginNotFoundError'' :: string + string)
     [(''extractors'', PList [PDict [(''method'', PStr ''regex'')]])]
     ''stac.extractors'' ''extractors''
   = ([], Inl KeyError)"
  by (simp add: load_plugins_def)

end
